theory Spec2Isabelle
  imports Main "HOL-Library.Word" "HOL-Library.Signed_Division" "HOL-Library.Monad_Syntax"
begin

section \<open>The thread wrapper of src/threading/thread.cpp\<close>

text \<open>
  The class \<open>Thread\<close> pairs a work function (the virtual \<open>run()\<close>) with one native
  thread at a time. The model has three parts:
  \<^item> the fields of the instance, as a record;
  \<^item> the native threads the instance has created, in a store indexed by handle
    (\<open>new std::thread\<close> appends an entry, \<open>delete\<close> clears it), each with the
    position it has reached inside \<open>threadProc\<close>;
  \<^item> what the program cannot decide, as parameters: whether the spawn succeeds, how
    \<open>run()\<close> behaves, how far the spawned thread gets between two polls of \<open>start()\<close>,
    and the platform the file was compiled for.
  A call that does not return is a value of its own (\<open>Blocks\<close>), and so is a call that
  ends the program (\<open>Fault\<close>).
\<close>

subsection \<open>Data\<close>

datatype ptr = NULL | Addr nat   \<comment> \<open>a \<open>void *\<close>: the null pointer or an address\<close>

type_synonym handle = nat        \<comment> \<open>the address of a \<open>std::thread\<close> object\<close>

text \<open>
  The work function \<open>run()\<close> is supplied by a subclass. Of one call of it the model
  keeps what the wrapper can observe: the value it returns, if it returns, which may
  depend on the stop flag it is free to poll (\<open>returns b\<close> is the outcome while
  \<open>stopRequested()\<close> reads \<open>b\<close>; \<open>None\<close> means it keeps running), and whether it
  passes a cancellation point once \<open>pthread_cancel\<close> has been requested.
\<close>

record run_behaviour =
  returns :: "bool \<Rightarrow> ptr option"
  cancel_point :: bool

text \<open>
  Where a native thread stands in \<open>threadProc\<close>: before \<open>m_running = true\<close>,
  before \<open>m_start_finished_mutex.lock()\<close>, inside \<open>run()\<close>, or terminated.
\<close>

datatype pc = Entry | AtLock | InRun | Done

record native =
  pc :: pc
  work :: run_behaviour
  cancel :: bool   \<comment> \<open>a \<open>pthread_cancel\<close> request is pending\<close>

record state =
  m_name :: string
  m_retval :: ptr
  m_joinable :: bool
  m_request_stop :: bool
  m_running :: bool
  m_mutex :: bool                \<comment> \<open>\<open>True\<close> while locked\<close>
  m_start_finished_mutex :: bool \<comment> \<open>\<open>True\<close> while locked\<close>
  m_thread_obj :: "handle option" \<comment> \<open>\<open>None\<close> is the null pointer\<close>
  threads :: "native option list" \<comment> \<open>the \<open>std::thread\<close> objects; \<open>None\<close> once deleted\<close>

datatype platform = Win32 | Android | Posix

datatype fault = AssertFailed | BadHandle | ProcessKilled

datatype 'a outcome = Ret 'a state | Blocks | Fault fault

subsection \<open>The store of native threads\<close>

definition lookup :: "native option list \<Rightarrow> handle \<Rightarrow> native option" where
  "lookup ts h = (if h < length ts then ts ! h else None)"

definition set_thread :: "handle \<Rightarrow> native option \<Rightarrow> state \<Rightarrow> state" where
  "set_thread h t s = s\<lparr>threads := (threads s)[h := t]\<rparr>"

subsection \<open>The constructor\<close>

text \<open>
  \<open>Thread::Thread\<close> initialises \<open>m_name\<close>, \<open>m_retval\<close>, \<open>m_joinable\<close>,
  \<open>m_request_stop\<close> and \<open>m_running\<close>. The two mutexes are default-constructed
  (unlocked). \<open>m_thread_obj\<close> is not in the initialiser list: it holds whatever the
  memory held, which is the parameter \<open>junk\<close>.
\<close>

definition Thread :: "string \<Rightarrow> handle option \<Rightarrow> state" where
  "Thread name junk =
     \<lparr>m_name = name, m_retval = NULL, m_joinable = False, m_request_stop = False,
      m_running = False, m_mutex = False, m_start_finished_mutex = False,
      m_thread_obj = junk, threads = []\<rparr>"

subsection \<open>The trampoline \<open>threadProc\<close>\<close>

text \<open>
  One atomic step of the native thread \<open>h\<close>, \<open>None\<close> when it cannot move:
  \<^item> \<open>Entry\<close>: \<open>setName\<close>, \<open>registerThread\<close> (the operating system and the logger
    are outside the state), then \<open>m_running = true\<close>;
  \<^item> \<open>AtLock\<close>: \<open>m_start_finished_mutex.lock()\<close>, possible only while the mutex is
    free; the thread never unlocks it;
  \<^item> \<open>InRun\<close>: a pending cancellation ends the thread at a cancellation point, with
    nothing stored; otherwise, when \<open>run()\<close> returns, \<open>m_retval = run()\<close> and
    \<open>m_running = false\<close>.
\<close>

definition thread_step :: "handle \<Rightarrow> state \<Rightarrow> state option" where
  "thread_step h s =
     (case lookup (threads s) h of
        None \<Rightarrow> None
      | Some t \<Rightarrow>
          (case pc t of
             Entry \<Rightarrow> Some (set_thread h (Some (t\<lparr>pc := AtLock\<rparr>)) (s\<lparr>m_running := True\<rparr>))
           | AtLock \<Rightarrow>
               if m_start_finished_mutex s then None
               else Some (set_thread h (Some (t\<lparr>pc := InRun\<rparr>))
                            (s\<lparr>m_start_finished_mutex := True\<rparr>))
           | InRun \<Rightarrow>
               if cancel t \<and> cancel_point (work t)
               then Some (set_thread h (Some (t\<lparr>pc := Done\<rparr>)) s)
               else (case returns (work t) (m_request_stop s) of
                       None \<Rightarrow> None
                     | Some v \<Rightarrow>
                         Some (set_thread h (Some (t\<lparr>pc := Done\<rparr>))
                                 (s\<lparr>m_retval := v, m_running := False\<rparr>)))
           | Done \<Rightarrow> None))"

text \<open>The thread \<open>h\<close> runs for at most \<open>n\<close> steps.\<close>

fun thread_steps :: "nat \<Rightarrow> handle \<Rightarrow> state \<Rightarrow> state" where
  "thread_steps 0 h s = s"
| "thread_steps (Suc n) h s =
     (case thread_step h s of None \<Rightarrow> s | Some s' \<Rightarrow> thread_steps n h s')"

definition finished :: "handle \<Rightarrow> state \<Rightarrow> bool" where
  "finished h s = (case lookup (threads s) h of None \<Rightarrow> False | Some t \<Rightarrow> pc t = Done)"

text \<open>
  \<open>m_thread_obj->join()\<close> blocks the caller until the thread has terminated. While
  the caller is blocked only the thread moves; it has at most three steps ahead of it,
  and a thread that has stopped short of \<open>Done\<close> stays there for ever.
\<close>

definition join :: "handle \<Rightarrow> state \<Rightarrow> unit outcome" where
  "join h s =
     (case lookup (threads s) h of
        None \<Rightarrow> Fault BadHandle
      | Some t \<Rightarrow>
          let s' = thread_steps 3 h s in
          if finished h s' then Ret () s' else Blocks)"

subsection \<open>The instance lock\<close>

text \<open>
  \<open>MutexAutoLock lock(m_mutex)\<close> takes \<open>m_mutex\<close> on entry and releases it on every
  return of the enclosing function. A caller that finds it taken waits.
\<close>

definition MutexAutoLock :: "(state \<Rightarrow> 'a outcome) \<Rightarrow> state \<Rightarrow> 'a outcome" where
  "MutexAutoLock body s =
     (if m_mutex s then Blocks
      else (case body (s\<lparr>m_mutex := True\<rparr>) of
              Ret r s' \<Rightarrow> Ret r (s'\<lparr>m_mutex := False\<rparr>)
            | Blocks \<Rightarrow> Blocks
            | Fault f \<Rightarrow> Fault f))"

subsection \<open>\<open>Thread::start\<close>\<close>

text \<open>
  The loop \<open>while (!m_running) sleep_ms(1)\<close>. Before poll number \<open>i\<close> the spawned
  thread takes \<open>sched i\<close> steps; the loop has no other exit, so it may run for ever.
\<close>

partial_function (option) await_running ::
  "(nat \<Rightarrow> nat) \<Rightarrow> handle \<Rightarrow> nat \<Rightarrow> state \<Rightarrow> state option" where
  "await_running sched h i s =
     (let s' = thread_steps (sched i) h s in
      if m_running s' then Some s' else await_running sched h (Suc i) s')"

text \<open>
  \<open>spawn\<close> is the outcome of \<open>new std::thread(threadProc, this)\<close>: \<open>None\<close> when it
  throws \<open>std::system_error\<close>, otherwise the behaviour of the \<open>run()\<close> the new thread
  will call. \<open>try_lock\<close> leaves the mutex locked whether it was free or not.
\<close>

definition start :: "run_behaviour option \<Rightarrow> (nat \<Rightarrow> nat) \<Rightarrow> state \<Rightarrow> bool outcome" where
  "start spawn sched =
     MutexAutoLock (\<lambda>s.
      if m_running s then Ret False s
      else
        let s1 = s\<lparr>m_request_stop := False\<rparr>;
            s2 = s1\<lparr>m_start_finished_mutex := True\<rparr>
        in (case spawn of
              None \<Rightarrow> Ret False s2
            | Some w \<Rightarrow>
                let h = length (threads s2);
                    s3 = s2\<lparr>threads := threads s2 @ [Some \<lparr>pc = Entry, work = w, cancel = False\<rparr>],
                            m_thread_obj := Some h\<rparr>;
                    s4 = s3\<lparr>m_start_finished_mutex := False\<rparr>
                in (case await_running sched h 0 s4 of
                      None \<Rightarrow> Blocks
                    | Some s5 \<Rightarrow> Ret True (s5\<lparr>m_joinable := True\<rparr>))))"

subsection \<open>\<open>Thread::stop\<close>\<close>

definition stop :: "state \<Rightarrow> bool \<times> state" where
  "stop s = (True, s\<lparr>m_request_stop := True\<rparr>)"

subsection \<open>\<open>Thread::wait\<close>\<close>

text \<open>
  Dereferencing a null or dangling \<open>m_thread_obj\<close> and a failed \<open>assert\<close> end the
  program.
\<close>

definition wait :: "state \<Rightarrow> bool outcome" where
  "wait =
     MutexAutoLock (\<lambda>s.
      if \<not> m_joinable s then Ret False s
      else
        (case m_thread_obj s of
           None \<Rightarrow> Fault BadHandle
         | Some h \<Rightarrow>
             (case join h s of
                Blocks \<Rightarrow> Blocks
              | Fault f \<Rightarrow> Fault f
              | Ret _ s1 \<Rightarrow>
                  let s2 = (set_thread h None s1)\<lparr>m_thread_obj := None\<rparr>
                  in if m_running s2 then Fault AssertFailed
                     else Ret True (s2\<lparr>m_joinable := False\<rparr>))))"

subsection \<open>\<open>Thread::kill\<close>\<close>

text \<open>
  Modelled from the spec: \<open>getThreadHandle()\<close>, defined in \<open>threading/thread.h\<close>, which
  is not among the sources at hand. It is the native handle of the execution context
  the instance owns, \<open>m_thread_obj->native_handle()\<close>; there is none to return when
  \<open>m_thread_obj\<close> is null or points to no thread object.
\<close>

definition getThreadHandle :: "state \<Rightarrow> handle option" where
  "getThreadHandle s =
     (case m_thread_obj s of
        None \<Rightarrow> None
      | Some h \<Rightarrow> (case lookup (threads s) h of None \<Rightarrow> None | Some t \<Rightarrow> Some h))"

text \<open>
  \<open>TerminateThread\<close> ends the thread at once, wherever it is; \<open>CloseHandle\<close> closes the
  native handle. The \<open>std::thread\<close> object is neither joined nor deleted.
  \<open>pthread_cancel\<close> only records the request; the thread acts on it inside \<open>run()\<close>.
\<close>

definition TerminateThread :: "handle \<Rightarrow> state \<Rightarrow> state" where
  "TerminateThread h s =
     set_thread h (map_option (\<lambda>t. t\<lparr>pc := Done\<rparr>) (lookup (threads s) h)) s"

definition pthread_cancel :: "handle \<Rightarrow> state \<Rightarrow> state" where
  "pthread_cancel h s =
     set_thread h (map_option (\<lambda>t. t\<lparr>cancel := True\<rparr>) (lookup (threads s) h)) s"

text \<open>
  On Android the thread is sent \<open>SIGKILL\<close> with \<open>pthread_kill\<close>. The signal cannot be
  caught and its action is to terminate the whole process.
\<close>

definition kill :: "platform \<Rightarrow> state \<Rightarrow> bool outcome" where
  "kill plat s =
     (if \<not> m_running s then
        (case wait s of
           Ret _ s' \<Rightarrow> Ret False s'
         | Blocks \<Rightarrow> Blocks
         | Fault f \<Rightarrow> Fault f)
      else
        let s1 = s\<lparr>m_running := False\<rparr> in
        (case plat of
           Win32 \<Rightarrow>
             (case getThreadHandle s1 of
                None \<Rightarrow> Fault BadHandle
              | Some h \<Rightarrow>
                  Ret True ((TerminateThread h s1)
                    \<lparr>m_retval := NULL, m_joinable := False, m_request_stop := False\<rparr>))
         | Android \<Rightarrow>
             (case getThreadHandle s1 of
                None \<Rightarrow> Fault BadHandle
              | Some h \<Rightarrow> Fault ProcessKilled)
         | Posix \<Rightarrow>
             (case getThreadHandle s1 of
                None \<Rightarrow> Fault BadHandle
              | Some h \<Rightarrow>
                  (case wait (pthread_cancel h s1) of
                     Blocks \<Rightarrow> Blocks
                   | Fault f \<Rightarrow> Fault f
                   | Ret _ s3 \<Rightarrow>
                       Ret True (s3\<lparr>m_retval := NULL, m_joinable := False,
                                    m_request_stop := False\<rparr>)))))"

subsection \<open>\<open>Thread::getReturnValue\<close>\<close>

text \<open>The second argument is what the slot \<open>*ret\<close> holds before the call.\<close>

definition getReturnValue :: "state \<Rightarrow> ptr \<Rightarrow> bool \<times> ptr" where
  "getReturnValue s slot = (if m_running s then (False, slot) else (True, m_retval s))"

subsection \<open>The destructor\<close>

text \<open>
  \<open>Thread::~Thread\<close> calls \<open>kill()\<close>, then \<open>try_lock\<close> and \<open>unlock\<close> on the start
  mutex, which leaves it unlocked.
\<close>

definition Thread_dtor :: "platform \<Rightarrow> state \<Rightarrow> unit outcome" where
  "Thread_dtor plat s =
     (case kill plat s of
        Ret _ s' \<Rightarrow> Ret () (s'\<lparr>m_start_finished_mutex := False\<rparr>)
      | Blocks \<Rightarrow> Blocks
      | Fault f \<Rightarrow> Fault f)"

subsection \<open>Platform services\<close>

text \<open>
  \<open>setName\<close> and \<open>bindToProcessor\<close> only call the operating system and touch no
  field of the instance; they are left out.

  \<open>getNumberOfProcessors\<close> returns \<open>std::thread::hardware_concurrency()\<close>, a value of
  the standard library, taken as the parameter. An \<open>unsigned int\<close> is a 32-bit word.
\<close>

definition getNumberOfProcessors :: "32 word \<Rightarrow> 32 word" where
  "getNumberOfProcessors hardware_concurrency = hardware_concurrency"

text \<open>
  Arithmetic on \<open>int\<close>: 32 bits, signed. A result that is not representable and a
  division by zero are undefined behaviour (\<open>None\<close>); division truncates towards zero.
\<close>

definition INT_MIN :: int where "INT_MIN = - (2 ^ 31)"
definition INT_MAX :: int where "INT_MAX = 2 ^ 31 - 1"

definition representable :: "int \<Rightarrow> bool" where
  "representable x = (INT_MIN \<le> x \<and> x \<le> INT_MAX)"

definition c_int :: "int \<Rightarrow> int option" where
  "c_int x = (if representable x then Some x else None)"

definition c_div :: "int \<Rightarrow> int \<Rightarrow> int option" where
  "c_div a b = (if b = 0 then None else c_int (a sdiv b))"

text \<open>
  What the operating system answers to \<open>setPriority\<close>: the return code and the policy
  of \<open>pthread_getschedparam\<close>, the priority range of a policy, the return code of
  \<open>pthread_setschedparam\<close> for a policy and a priority, and the result of
  \<open>SetThreadPriority\<close>.
\<close>

record sched_os =
  pthread_getschedparam :: "int \<times> int"
  sched_get_priority_min :: "int \<Rightarrow> int"
  sched_get_priority_max :: "int \<Rightarrow> int"
  pthread_setschedparam :: "int \<Rightarrow> int \<Rightarrow> int"
  SetThreadPriority :: "int \<Rightarrow> bool"

text \<open>
  \<open>Thread::setPriority\<close>. The macros \<open>USE_WIN_THREADS\<close> and
  \<open>THREAD_PRIORITY_HIGHEST\<close> come from headers that are not part of the sources at
  hand, so they are parameters. The result is the value returned together with the
  \<open>sched_priority\<close> handed to \<open>pthread_setschedparam\<close>, if it was called.
\<close>

definition setPriority ::
  "bool \<Rightarrow> int \<Rightarrow> sched_os \<Rightarrow> int \<Rightarrow> (bool \<times> int option) option" where
  "setPriority USE_WIN_THREADS THREAD_PRIORITY_HIGHEST os prio =
     (if USE_WIN_THREADS then Some (SetThreadPriority os prio, None)
      else if fst (pthread_getschedparam os) \<noteq> 0 then Some (False, None)
      else
        let policy = snd (pthread_getschedparam os);
            pmin = sched_get_priority_min os policy;
            pmax = sched_get_priority_max os policy
        in do {
             d \<leftarrow> c_int (pmax - pmin);
             m \<leftarrow> c_int (prio * d);
             q \<leftarrow> c_div m THREAD_PRIORITY_HIGHEST;
             p \<leftarrow> c_int (pmin + q);
             Some (pthread_setschedparam os policy p = 0, Some p)
           })"

text \<open>
  The formula of the specification, \<open>min + level * (max - min) / MAX_LEVEL\<close>, on
  unbounded integers, with the division of C.
\<close>

definition native_priority :: "int \<Rightarrow> int \<Rightarrow> int \<Rightarrow> int \<Rightarrow> int" where
  "native_priority MAX_LEVEL pmin pmax level = pmin + (level * (pmax - pmin)) sdiv MAX_LEVEL"

subsection \<open>The states a single caller can reach\<close>

text \<open>
  Between two calls of one caller: the instance lock is free; a running instance is
  joinable; a joinable instance points to a thread object that exists; no thread is
  still before \<open>m_running = true\<close> and none has a cancellation pending; a thread that
  has not terminated is the one \<open>m_thread_obj\<close> points to, the instance is running,
  and the start mutex is free while that thread waits for it; the thread of a running
  instance has not terminated.
\<close>

definition thread_ok :: "state \<Rightarrow> handle \<Rightarrow> bool" where
  "thread_ok s h =
     (case lookup (threads s) h of
        None \<Rightarrow> True
      | Some t \<Rightarrow>
          pc t \<noteq> Entry \<and> \<not> cancel t \<and>
          (pc t \<noteq> Done \<longrightarrow>
             m_thread_obj s = Some h \<and> m_running s \<and>
             (pc t = AtLock \<longrightarrow> \<not> m_start_finished_mutex s)))"

definition quiescent :: "state \<Rightarrow> bool" where
  "quiescent s =
     (\<not> m_mutex s \<and>
      (m_running s \<longrightarrow> m_joinable s) \<and>
      (m_joinable s \<longrightarrow>
         (case m_thread_obj s of None \<Rightarrow> False | Some h \<Rightarrow> lookup (threads s) h \<noteq> None)) \<and>
      (m_running s \<longrightarrow>
         (case m_thread_obj s of None \<Rightarrow> False | Some h \<Rightarrow> \<not> finished h s)) \<and>
      (\<forall>h \<in> set [0 ..< length (threads s)]. thread_ok s h))"

text \<open>
  Inside \<open>start()\<close>, while it polls for \<open>m_running\<close>: the instance lock is held, the
  new thread \<open>h\<close> is the one \<open>m_thread_obj\<close> points to, \<open>m_running\<close> is set exactly
  while that thread is between its entry and its end, the start mutex is free until the
  thread takes it, and every other thread has terminated.
\<close>

definition starting :: "handle \<Rightarrow> state \<Rightarrow> bool" where
  "starting h s =
     (m_mutex s \<and> m_thread_obj s = Some h \<and>
      (case lookup (threads s) h of
         None \<Rightarrow> False
       | Some t \<Rightarrow>
           \<not> cancel t \<and> m_running s = (pc t = AtLock \<or> pc t = InRun) \<and>
           (pc t = Entry \<or> pc t = AtLock \<longrightarrow> \<not> m_start_finished_mutex s)) \<and>
      (\<forall>h' \<in> set [0 ..< length (threads s)]. h' \<noteq> h \<longrightarrow>
         (case lookup (threads s) h' of None \<Rightarrow> True | Some t' \<Rightarrow> pc t' = Done \<and> \<not> cancel t')))"

text \<open>
  The states a single caller produces from a fresh instance: its calls that return, in
  any order, interleaved with the steps of the threads it has spawned.
\<close>

inductive reachable :: "platform \<Rightarrow> state \<Rightarrow> bool" for plat :: platform where
  fresh: "reachable plat (Thread name junk)"
| by_start: "reachable plat s \<Longrightarrow> start spawn sched s = Ret b s' \<Longrightarrow> reachable plat s'"
| by_stop: "reachable plat s \<Longrightarrow> reachable plat (snd (stop s))"
| by_wait: "reachable plat s \<Longrightarrow> wait s = Ret b s' \<Longrightarrow> reachable plat s'"
| by_kill: "reachable plat s \<Longrightarrow> kill plat s = Ret b s' \<Longrightarrow> reachable plat s'"
| by_step: "reachable plat s \<Longrightarrow> thread_step h s = Some s' \<Longrightarrow> reachable plat s'"

subsection \<open>The last completed run\<close>

text \<open>
  \<open>last_run plat s v\<close>: a single caller has brought the instance to the state \<open>s\<close>, a
  run of the work function has completed there with the value \<open>v\<close>, and since then no
  other run has completed and no running instance has been killed. A run completes when
  the thread leaves \<open>run()\<close> by a return, on its own or while the caller is blocked in
  \<open>wait()\<close>. What may follow: \<open>stop()\<close>, any \<open>start()\<close> that returns, a \<open>wait()\<close> or a
  \<open>kill()\<close> that finds nothing running, and steps of the thread short of a return.
\<close>

inductive last_run :: "platform \<Rightarrow> state \<Rightarrow> ptr \<Rightarrow> bool" for plat :: platform where
  run_returns:
    "quiescent s \<Longrightarrow> lookup (threads s) h = Some t \<Longrightarrow> pc t = InRun \<Longrightarrow>
     returns (work t) (m_request_stop s) = Some v \<Longrightarrow> thread_step h s = Some s' \<Longrightarrow>
     last_run plat s' v"
| run_returns_in_wait:
    "quiescent s \<Longrightarrow> m_running s \<Longrightarrow> m_thread_obj s = Some h \<Longrightarrow>
     lookup (threads s) h = Some t \<Longrightarrow> returns (work t) (m_request_stop s) = Some v \<Longrightarrow>
     wait s = Ret b s' \<Longrightarrow> last_run plat s' v"
| after_stop:
    "last_run plat s v \<Longrightarrow> last_run plat (snd (stop s)) v"
| after_start:
    "last_run plat s v \<Longrightarrow> start spawn sched s = Ret b s' \<Longrightarrow> last_run plat s' v"
| after_wait:
    "last_run plat s v \<Longrightarrow> \<not> m_running s \<Longrightarrow> wait s = Ret b s' \<Longrightarrow> last_run plat s' v"
| after_kill:
    "last_run plat s v \<Longrightarrow> \<not> m_running s \<Longrightarrow> kill plat s = Ret b s' \<Longrightarrow>
     last_run plat s' v"
| after_step:
    "last_run plat s v \<Longrightarrow> lookup (threads s) h = Some t \<Longrightarrow> pc t \<noteq> InRun \<Longrightarrow>
     thread_step h s = Some s' \<Longrightarrow> last_run plat s' v"

subsection \<open>Who reads the stop flag\<close>

text \<open>
  A work function ignores the stop flag when it behaves the same whatever the flag
  reads. \<open>forget_stop\<close> compares two outcomes up to the stop flag of the state they
  leave.
\<close>

definition ignores_stop :: "run_behaviour \<Rightarrow> bool" where
  "ignores_stop w = (returns w True = returns w False)"

definition all_ignore_stop :: "state \<Rightarrow> bool" where
  "all_ignore_stop s =
     (\<forall>e \<in> set (threads s). case e of None \<Rightarrow> True | Some t \<Rightarrow> ignores_stop (work t))"

fun forget_stop :: "'a outcome \<Rightarrow> 'a outcome" where
  "forget_stop (Ret r s) = Ret r (s\<lparr>m_request_stop := False\<rparr>)"
| "forget_stop Blocks = Blocks"
| "forget_stop (Fault f) = Fault f"

subsection \<open>Work functions and schedules used as examples\<close>

text \<open>
  A work function that returns a sentinel whatever the stop flag says and passes no
  cancellation point; one that polls the stop flag between short sleeps and returns
  once it is set; one that runs for ever without a cancellation point.
\<close>

definition sentinel_run :: run_behaviour where
  "sentinel_run = \<lparr>returns = (\<lambda>b. Some (Addr 42)), cancel_point = False\<rparr>"

definition polling_run :: run_behaviour where
  "polling_run = \<lparr>returns = (\<lambda>b. if b then Some NULL else None), cancel_point = True\<rparr>"

definition spinning_run :: run_behaviour where
  "spinning_run = \<lparr>returns = (\<lambda>b. None), cancel_point = False\<rparr>"

text \<open>
  An operating system whose thread runs under policy 1 with priorities 1 to 99 and
  accepts exactly those, and one where \<open>pthread_getschedparam\<close> fails with code 3.
\<close>

definition fifo_os :: sched_os where
  "fifo_os =
     \<lparr>pthread_getschedparam = (0, 1),
      sched_get_priority_min = (\<lambda>policy. if policy = 1 then 1 else 0),
      sched_get_priority_max = (\<lambda>policy. if policy = 1 then 99 else 0),
      pthread_setschedparam = (\<lambda>policy p. if 1 \<le> p \<and> p \<le> 99 then 0 else 22),
      SetThreadPriority = (\<lambda>p. False)\<rparr>"

definition failing_os :: sched_os where
  "failing_os = fifo_os\<lparr>pthread_getschedparam := (3, 0)\<rparr>"

text \<open>The spawned thread takes one step before every poll of \<open>start()\<close>.\<close>

definition every_tick :: "nat \<Rightarrow> nat" where
  "every_tick i = 1"

text \<open>The spawned thread runs to its end before the first poll of \<open>start()\<close>.\<close>

definition burst :: "nat \<Rightarrow> nat" where
  "burst i = 3"

text \<open>
  The instance \<open>name\<close> right after its first \<open>start()\<close> has returned, with the
  spawned thread about to take the start mutex, and the same instance once that thread
  has returned \<open>v\<close> from \<open>run()\<close> and terminated.
\<close>

definition started :: "string \<Rightarrow> run_behaviour \<Rightarrow> state" where
  "started name w =
     \<lparr>m_name = name, m_retval = NULL, m_joinable = True, m_request_stop = False,
      m_running = True, m_mutex = False, m_start_finished_mutex = False,
      m_thread_obj = Some 0,
      threads = [Some \<lparr>pc = AtLock, work = w, cancel = False\<rparr>]\<rparr>"

definition completed :: "string \<Rightarrow> run_behaviour \<Rightarrow> ptr \<Rightarrow> state" where
  "completed name w v =
     \<lparr>m_name = name, m_retval = v, m_joinable = True, m_request_stop = False,
      m_running = False, m_mutex = False, m_start_finished_mutex = True,
      m_thread_obj = Some 0,
      threads = [Some \<lparr>pc = Done, work = w, cancel = False\<rparr>]\<rparr>"

text \<open>The same instance after a \<open>wait()\<close> that has joined that thread.\<close>

definition reaped :: "string \<Rightarrow> ptr \<Rightarrow> state" where
  "reaped name v =
     \<lparr>m_name = name, m_retval = v, m_joinable = False, m_request_stop = False,
      m_running = False, m_mutex = False, m_start_finished_mutex = True,
      m_thread_obj = None, threads = [None]\<rparr>"

section \<open>Properties\<close>

subsection \<open>Evaluation of the model\<close>

lemma start_spawn_failure:
  "\<not> m_mutex s \<Longrightarrow> \<not> m_running s \<Longrightarrow>
   start None sched s = Ret False (s\<lparr>m_request_stop := False, m_start_finished_mutex := True\<rparr>)"
  by (simp add: start_def MutexAutoLock_def)

lemma start_fresh:
  "start (Some w) every_tick (Thread name junk) = Ret True (started name w)"
  apply (simp add: start_def Thread_def MutexAutoLock_def)
  apply (subst await_running.simps)
  apply (simp add: every_tick_def thread_step_def lookup_def set_thread_def started_def)
  done

lemma started_completes:
  "returns w False = Some v \<Longrightarrow> thread_steps 2 0 (started name w) = completed name w v"
  by (simp add: numeral_2_eq_2 thread_step_def lookup_def set_thread_def started_def
      completed_def)

subsection \<open>The store, the invariant and the steps of a thread\<close>

lemma lookup_set_thread [simp]:
  "lookup (threads (set_thread h x s)) h' =
     (if h' = h then (if h < length (threads s) then x else None) else lookup (threads s) h')"
  by (simp add: lookup_def set_thread_def)

lemma set_thread_fields [simp]:
  "m_name (set_thread h x s) = m_name s"
  "m_retval (set_thread h x s) = m_retval s"
  "m_joinable (set_thread h x s) = m_joinable s"
  "m_request_stop (set_thread h x s) = m_request_stop s"
  "m_running (set_thread h x s) = m_running s"
  "m_mutex (set_thread h x s) = m_mutex s"
  "m_start_finished_mutex (set_thread h x s) = m_start_finished_mutex s"
  "m_thread_obj (set_thread h x s) = m_thread_obj s"
  "length (threads (set_thread h x s)) = length (threads s)"
  by (simp_all add: set_thread_def)

lemma lookup_Some_less: "lookup ts h = Some t \<Longrightarrow> h < length ts"
  by (simp add: lookup_def split: if_splits)

lemma all_threads_ok:
  "(\<forall>h \<in> set [0 ..< length (threads s)]. thread_ok s h) \<longleftrightarrow>
      (\<forall>h t. lookup (threads s) h = Some t \<longrightarrow>
        pc t \<noteq> Entry \<and> \<not> cancel t \<and>
        (pc t \<noteq> Done \<longrightarrow>
           m_thread_obj s = Some h \<and> m_running s \<and>
           (pc t = AtLock \<longrightarrow> \<not> m_start_finished_mutex s)))"
  (is "?L \<longleftrightarrow> ?R")
proof
  assume l: ?L
  show ?R
  proof (intro allI impI)
    fix h t assume lk: "lookup (threads s) h = Some t"
    then have "h < length (threads s)" by (rule lookup_Some_less)
    with l have "thread_ok s h" by simp
    with lk show "pc t \<noteq> Entry \<and> \<not> cancel t \<and>
        (pc t \<noteq> Done \<longrightarrow>
           m_thread_obj s = Some h \<and> m_running s \<and>
           (pc t = AtLock \<longrightarrow> \<not> m_start_finished_mutex s))"
      by (simp add: thread_ok_def)
  qed
next
  assume r: ?R
  show ?L
  proof
    fix h assume "h \<in> set [0 ..< length (threads s)]"
    show "thread_ok s h"
    proof (cases "lookup (threads s) h")
      case None then show ?thesis by (simp add: thread_ok_def)
    next
      case (Some t)
      with r show ?thesis unfolding thread_ok_def by simp
    qed
  qed
qed

lemma quiescent_iff:
  "quiescent s \<longleftrightarrow>
     \<not> m_mutex s \<and> (m_running s \<longrightarrow> m_joinable s) \<and>
     (m_joinable s \<longrightarrow> (\<exists>h t. m_thread_obj s = Some h \<and> lookup (threads s) h = Some t)) \<and>
     (m_running s \<longrightarrow>
        (\<exists>h t. m_thread_obj s = Some h \<and> lookup (threads s) h = Some t \<and> pc t \<noteq> Done)) \<and>
     (\<forall>h t. lookup (threads s) h = Some t \<longrightarrow>
        pc t \<noteq> Entry \<and> \<not> cancel t \<and>
        (pc t \<noteq> Done \<longrightarrow>
           m_thread_obj s = Some h \<and> m_running s \<and>
           (pc t = AtLock \<longrightarrow> \<not> m_start_finished_mutex s)))"
proof -
  have b: "(case m_thread_obj s of None \<Rightarrow> False | Some h \<Rightarrow> lookup (threads s) h \<noteq> None) \<longleftrightarrow>
      (\<exists>h t. m_thread_obj s = Some h \<and> lookup (threads s) h = Some t)"
    by (cases "m_thread_obj s") auto
  have c: "m_joinable s \<Longrightarrow> (\<exists>h t. m_thread_obj s = Some h \<and> lookup (threads s) h = Some t) \<Longrightarrow>
      (case m_thread_obj s of None \<Rightarrow> False | Some h \<Rightarrow> \<not> finished h s) \<longleftrightarrow>
      (\<exists>h t. m_thread_obj s = Some h \<and> lookup (threads s) h = Some t \<and> pc t \<noteq> Done)"
    by (cases "m_thread_obj s") (auto simp: finished_def)
  show ?thesis
    unfolding quiescent_def all_threads_ok b
    using c by blast
qed


lemma quiescent_Thread: "quiescent (Thread name junk)"
  by (simp add: quiescent_def Thread_def)

lemma thread_step_cases:
  assumes "thread_step h s = Some s'"
  obtains
    (entry) t where "lookup (threads s) h = Some t" "pc t = Entry"
      "s' = set_thread h (Some (t\<lparr>pc := AtLock\<rparr>)) (s\<lparr>m_running := True\<rparr>)"
  | (lock) t where "lookup (threads s) h = Some t" "pc t = AtLock" "\<not> m_start_finished_mutex s"
      "s' = set_thread h (Some (t\<lparr>pc := InRun\<rparr>)) (s\<lparr>m_start_finished_mutex := True\<rparr>)"
  | (cancelled) t where "lookup (threads s) h = Some t" "pc t = InRun"
      "cancel t" "cancel_point (work t)"
      "s' = set_thread h (Some (t\<lparr>pc := Done\<rparr>)) s"
  | (returned) t v where "lookup (threads s) h = Some t" "pc t = InRun"
      "\<not> (cancel t \<and> cancel_point (work t))" "returns (work t) (m_request_stop s) = Some v"
      "s' = set_thread h (Some (t\<lparr>pc := Done\<rparr>)) (s\<lparr>m_retval := v, m_running := False\<rparr>)"
  using assms
  by (auto simp: thread_step_def split: option.splits pc.splits if_splits)

lemma thread_step_frame:
  assumes "thread_step h s = Some s'"
  shows "m_name s' = m_name s" "m_joinable s' = m_joinable s"
    "m_request_stop s' = m_request_stop s" "m_mutex s' = m_mutex s"
    "m_thread_obj s' = m_thread_obj s" "length (threads s') = length (threads s)"
    "h' \<noteq> h \<Longrightarrow> lookup (threads s') h' = lookup (threads s) h'"
  using assms by (auto elim!: thread_step_cases)

lemma thread_steps_frame:
  "m_name (thread_steps n h s) = m_name s"
  "m_joinable (thread_steps n h s) = m_joinable s"
  "m_request_stop (thread_steps n h s) = m_request_stop s"
  "m_mutex (thread_steps n h s) = m_mutex s"
  "m_thread_obj (thread_steps n h s) = m_thread_obj s"
  "length (threads (thread_steps n h s)) = length (threads s)"
  "h' \<noteq> h \<Longrightarrow> lookup (threads (thread_steps n h s)) h' = lookup (threads s) h'"
  by (induction n arbitrary: s; simp split: option.splits; simp add: thread_step_frame)+

lemma quiescent_threads:
  "quiescent s \<Longrightarrow> lookup (threads s) h = Some t \<Longrightarrow>
        pc t \<noteq> Entry \<and> \<not> cancel t \<and>
        (pc t \<noteq> Done \<longrightarrow>
           m_thread_obj s = Some h \<and> m_running s \<and>
           (pc t = AtLock \<longrightarrow> \<not> m_start_finished_mutex s))"
  unfolding quiescent_iff
  apply (elim conjE)
  apply (erule allE [where x = h])
  apply (erule allE [where x = t])
  apply (erule (1) impE)
  apply assumption
  done

lemma quiescent_threadD:
  assumes "quiescent s" and "lookup (threads s) h = Some t"
  shows "pc t \<noteq> Entry" and "\<not> cancel t"
    and "pc t \<noteq> Done \<Longrightarrow> m_thread_obj s = Some h"
    and "pc t \<noteq> Done \<Longrightarrow> m_running s"
    and "pc t = AtLock \<Longrightarrow> \<not> m_start_finished_mutex s"
  using quiescent_threads [OF assms] by simp_all

lemma quiescentD:
  assumes "quiescent s"
  shows "\<not> m_mutex s" and "m_running s \<Longrightarrow> m_joinable s"
    and "m_joinable s \<Longrightarrow> \<exists>h t. m_thread_obj s = Some h \<and> lookup (threads s) h = Some t"
    and "m_running s \<Longrightarrow>
       \<exists>h t. m_thread_obj s = Some h \<and> lookup (threads s) h = Some t \<and> pc t \<noteq> Done"
  using assms unfolding quiescent_iff by simp_all

lemma quiescentI:
  assumes a1: "\<not> m_mutex s" and a2: "m_running s \<Longrightarrow> m_joinable s"
    and a3: "m_joinable s \<Longrightarrow> \<exists>h t. m_thread_obj s = Some h \<and> lookup (threads s) h = Some t"
    and a4: "m_running s \<Longrightarrow>
       \<exists>h t. m_thread_obj s = Some h \<and> lookup (threads s) h = Some t \<and> pc t \<noteq> Done"
    and a5: "\<And>h t. lookup (threads s) h = Some t \<Longrightarrow>
        pc t \<noteq> Entry \<and> \<not> cancel t \<and>
        (pc t \<noteq> Done \<longrightarrow>
           m_thread_obj s = Some h \<and> m_running s \<and>
           (pc t = AtLock \<longrightarrow> \<not> m_start_finished_mutex s))"
  shows "quiescent s"
  unfolding quiescent_iff
  apply (rule conjI, rule a1)
  apply (rule conjI, rule impI, erule a2)
  apply (rule conjI, rule impI, erule a3)
  apply (rule conjI, rule impI, erule a4)
  apply (intro allI impI)
  apply (erule a5)
  done

text \<open>Among quiescent states only the thread of \<open>m_thread_obj\<close> can be alive.\<close>

lemma quiescent_others_Done:
  assumes "quiescent s" and "lookup (threads s) h = Some t" and "m_thread_obj s \<noteq> Some h"
  shows "pc t = Done"
  using quiescent_threadD(3) [OF assms(1,2)] assms(3) by blast

lemma quiescent_thread_step:
  assumes q: "quiescent s" and st: "thread_step h s = Some s'"
  shows "quiescent s'"
  using st
proof (cases rule: thread_step_cases)
  case (entry t)
  from quiescent_threadD(1) [OF q entry(1)] entry(2) show ?thesis by simp
next
  case (lock t)
  note tq = quiescent_threadD [OF q lock(1)]
  have cur: "m_thread_obj s = Some h" and run: "m_running s"
    using tq lock(2) by simp_all
  have hl: "h < length (threads s)" using lock(1) by (rule lookup_Some_less)
  show ?thesis
  proof (rule quiescentI)
    show "\<not> m_mutex s'" using quiescentD(1) [OF q] lock by simp
    show "m_joinable s'" if "m_running s'"
      using quiescentD(2) [OF q] run lock by simp
    show "\<exists>h t. m_thread_obj s' = Some h \<and> lookup (threads s') h = Some t"
      using cur hl lock by simp
    show "\<exists>h t. m_thread_obj s' = Some h \<and> lookup (threads s') h = Some t \<and> pc t \<noteq> Done"
      using cur hl lock by simp
    fix h' t' assume a: "lookup (threads s') h' = Some t'"
    show "pc t' \<noteq> Entry \<and> \<not> cancel t' \<and>
        (pc t' \<noteq> Done \<longrightarrow>
           m_thread_obj s' = Some h' \<and> m_running s' \<and>
           (pc t' = AtLock \<longrightarrow> \<not> m_start_finished_mutex s'))"
    proof (cases "h' = h")
      case True
      with a hl lock have "t' = t\<lparr>pc := InRun\<rparr>" by simp
      with True tq cur run lock show ?thesis by simp
    next
      case False
      with a lock have b: "lookup (threads s) h' = Some t'" by simp
      from False cur have "m_thread_obj s \<noteq> Some h'" by simp
      with quiescent_others_Done [OF q b] have "pc t' = Done" by simp
      with quiescent_threadD(2) [OF q b] show ?thesis by simp
    qed
  qed
next
  case (cancelled t)
  from quiescent_threadD(2) [OF q cancelled(1)] cancelled(3) show ?thesis by simp
next
  case (returned t v)
  note tq = quiescent_threadD [OF q returned(1)]
  have cur: "m_thread_obj s = Some h" and run: "m_running s"
    using tq returned(2) by simp_all
  have hl: "h < length (threads s)" using returned(1) by (rule lookup_Some_less)
  show ?thesis
  proof (rule quiescentI)
    show "\<not> m_mutex s'" using quiescentD(1) [OF q] returned by simp
    show "m_joinable s'" if "m_running s'"
      using quiescentD(2) [OF q] run returned by simp
    show "\<exists>h t. m_thread_obj s' = Some h \<and> lookup (threads s') h = Some t"
      using cur hl returned by simp
    show "\<exists>h t. m_thread_obj s' = Some h \<and> lookup (threads s') h = Some t \<and> pc t \<noteq> Done"
      if "m_running s'"
      using that returned by simp
    fix h' t' assume a: "lookup (threads s') h' = Some t'"
    show "pc t' \<noteq> Entry \<and> \<not> cancel t' \<and>
        (pc t' \<noteq> Done \<longrightarrow>
           m_thread_obj s' = Some h' \<and> m_running s' \<and>
           (pc t' = AtLock \<longrightarrow> \<not> m_start_finished_mutex s'))"
    proof (cases "h' = h")
      case True
      with a hl returned have "t' = t\<lparr>pc := Done\<rparr>" by simp
      with True tq show ?thesis by simp
    next
      case False
      with a returned have b: "lookup (threads s) h' = Some t'" by simp
      from False cur have "m_thread_obj s \<noteq> Some h'" by simp
      with quiescent_others_Done [OF q b] have "pc t' = Done" by simp
      with quiescent_threadD(2) [OF q b] show ?thesis by simp
    qed
  qed
qed


lemma thread_steps_stuck: "thread_step h s = None \<Longrightarrow> thread_steps n h s = s"
  by (cases n) simp_all

lemma run_to_end:
  assumes "lookup (threads s) h = Some t"
  shows "pc t = Done \<Longrightarrow> thread_steps n h s = s"
    and "pc t = InRun \<Longrightarrow> cancel t \<and> cancel_point (work t) \<Longrightarrow>
      thread_steps (Suc n) h s = set_thread h (Some (t\<lparr>pc := Done\<rparr>)) s"
    and "pc t = InRun \<Longrightarrow> \<not> (cancel t \<and> cancel_point (work t)) \<Longrightarrow>
      returns (work t) (m_request_stop s) = Some v \<Longrightarrow>
      thread_steps (Suc n) h s =
        set_thread h (Some (t\<lparr>pc := Done\<rparr>)) (s\<lparr>m_retval := v, m_running := False\<rparr>)"
    and "pc t = InRun \<Longrightarrow> \<not> (cancel t \<and> cancel_point (work t)) \<Longrightarrow>
      returns (work t) (m_request_stop s) = None \<Longrightarrow> thread_steps n h s = s"
    and "pc t = AtLock \<Longrightarrow> m_start_finished_mutex s \<Longrightarrow> thread_steps n h s = s"
    and "pc t = AtLock \<Longrightarrow> \<not> m_start_finished_mutex s \<Longrightarrow>
      thread_steps (Suc n) h s =
        thread_steps n h (set_thread h (Some (t\<lparr>pc := InRun\<rparr>))
          (s\<lparr>m_start_finished_mutex := True\<rparr>))"
    and "pc t = Entry \<Longrightarrow>
      thread_steps (Suc n) h s =
        thread_steps n h (set_thread h (Some (t\<lparr>pc := AtLock\<rparr>)) (s\<lparr>m_running := True\<rparr>))"
proof -
  have hl: "h < length (threads s)" using assms by (rule lookup_Some_less)
  show "pc t = Done \<Longrightarrow> thread_steps n h s = s"
    using assms by (simp add: thread_steps_stuck thread_step_def)
  show "pc t = InRun \<Longrightarrow> \<not> (cancel t \<and> cancel_point (work t)) \<Longrightarrow>
      returns (work t) (m_request_stop s) = None \<Longrightarrow> thread_steps n h s = s"
    using assms by (simp add: thread_steps_stuck thread_step_def)
  show "pc t = AtLock \<Longrightarrow> m_start_finished_mutex s \<Longrightarrow> thread_steps n h s = s"
    using assms by (simp add: thread_steps_stuck thread_step_def)
  show "pc t = AtLock \<Longrightarrow> \<not> m_start_finished_mutex s \<Longrightarrow>
      thread_steps (Suc n) h s =
        thread_steps n h (set_thread h (Some (t\<lparr>pc := InRun\<rparr>))
          (s\<lparr>m_start_finished_mutex := True\<rparr>))"
    using assms by (simp add: thread_step_def)
  show "pc t = Entry \<Longrightarrow>
      thread_steps (Suc n) h s =
        thread_steps n h (set_thread h (Some (t\<lparr>pc := AtLock\<rparr>)) (s\<lparr>m_running := True\<rparr>))"
    using assms by (simp add: thread_step_def)
  show "pc t = InRun \<Longrightarrow> cancel t \<and> cancel_point (work t) \<Longrightarrow>
      thread_steps (Suc n) h s = set_thread h (Some (t\<lparr>pc := Done\<rparr>)) s"
    using assms hl by (simp add: thread_step_def thread_steps_stuck)
  show "pc t = InRun \<Longrightarrow> \<not> (cancel t \<and> cancel_point (work t)) \<Longrightarrow>
      returns (work t) (m_request_stop s) = Some v \<Longrightarrow>
      thread_steps (Suc n) h s =
        set_thread h (Some (t\<lparr>pc := Done\<rparr>)) (s\<lparr>m_retval := v, m_running := False\<rparr>)"
    using assms hl by (auto simp: thread_step_def thread_steps_stuck)
qed


lemma lookup_update [simp]:
  "lookup (ts[h := x]) h' =
     (if h' = h then (if h < length ts then x else None) else lookup ts h')"
  by (simp add: lookup_def)

text \<open>
  What \<open>join\<close> does to a thread that is past its entry and, if it still waits for the
  start mutex, finds it free.
\<close>

lemma join_past_entry:
  assumes lk: "lookup (threads s) h = Some t" and pe: "pc t \<noteq> Entry"
    and fr: "pc t = AtLock \<Longrightarrow> \<not> m_start_finished_mutex s"
    and s0: "s0 = (if pc t = AtLock then s\<lparr>m_start_finished_mutex := True\<rparr> else s)"
  shows "join h s =
     (if pc t = Done then Ret () s
      else if cancel t \<and> cancel_point (work t) then
        Ret () (set_thread h (Some (t\<lparr>pc := Done\<rparr>)) s0)
      else (case returns (work t) (m_request_stop s) of
              None \<Rightarrow> Blocks
            | Some v \<Rightarrow>
                Ret () (set_thread h (Some (t\<lparr>pc := Done\<rparr>))
                   (s0\<lparr>m_retval := v, m_running := False\<rparr>))))"
proof -
  have hl: "h < length (threads s)" using lk by (rule lookup_Some_less)
  show ?thesis
  proof (cases "pc t")
    case Entry
    with pe show ?thesis by simp
  next
    case Done
    with lk show ?thesis
      by (auto simp: join_def run_to_end(1) [OF lk] finished_def simp del: thread_steps.simps)
  next
    case InRun
    show ?thesis
    proof (cases "cancel t \<and> cancel_point (work t)")
      case True
      with InRun lk hl s0 show ?thesis
        by (auto simp: join_def numeral_3_eq_3 run_to_end(2) [OF lk] finished_def simp del: thread_steps.simps)
    next
      case False
      show ?thesis
      proof (cases "returns (work t) (m_request_stop s)")
        case None
        with InRun False lk s0 show ?thesis
          by (auto simp: join_def run_to_end(4) [OF lk] finished_def simp del: thread_steps.simps)
      next
        case (Some v)
        with InRun False lk hl s0 show ?thesis
          by (auto simp: join_def numeral_3_eq_3 run_to_end(3) [OF lk] finished_def simp del: thread_steps.simps)
      qed
    qed
  next
    case AtLock
    define ta where "ta = t\<lparr>pc := InRun\<rparr>"
    define sa where "sa = set_thread h (Some ta) (s\<lparr>m_start_finished_mutex := True\<rparr>)"
    have la: "lookup (threads sa) h = Some ta" using hl by (simp add: sa_def)
    have pa: "pc ta = InRun" by (simp add: ta_def)
    have st: "thread_steps (Suc n) h s = thread_steps n h sa" for n
      using run_to_end(6) [OF lk AtLock] fr [OF AtLock] by (simp add: sa_def ta_def)
    have fa: "cancel ta = cancel t" "work ta = work t" "m_request_stop sa = m_request_stop s"
      by (simp_all add: ta_def sa_def)
    have ee: "set_thread h x sa = set_thread h x (s\<lparr>m_start_finished_mutex := True\<rparr>)" for x
      by (simp add: sa_def set_thread_def)
    have e2: "set_thread h x (sa\<lparr>m_retval := v, m_running := False\<rparr>) =
        set_thread h x (s\<lparr>m_start_finished_mutex := True, m_retval := v, m_running := False\<rparr>)"
      for x v
      by (simp add: sa_def set_thread_def)
    have td: "ta\<lparr>pc := Done\<rparr> = t\<lparr>pc := Done\<rparr>" by (simp add: ta_def)
    show ?thesis
    proof (cases "cancel t \<and> cancel_point (work t)")
      case True
      with AtLock lk hl s0 show ?thesis
        using run_to_end(2) [OF la pa, of 1]
        by (auto simp: join_def numeral_3_eq_3 st fa finished_def ee td simp del: thread_steps.simps)
    next
      case False
      show ?thesis
      proof (cases "returns (work t) (m_request_stop s)")
        case None
        with AtLock False lk hl s0 show ?thesis
          using run_to_end(4) [OF la pa, of "Suc (Suc 0)"]
          by (auto simp: join_def numeral_3_eq_3 st fa finished_def la pa simp del: thread_steps.simps)
      next
        case (Some v)
        with AtLock False lk hl s0 show ?thesis
          using run_to_end(3) [OF la pa, of v 1]
          by (auto simp: join_def numeral_3_eq_3 st fa finished_def e2 td simp del: thread_steps.simps)
      qed
    qed
  qed
qed


lemma wait_not_joinable: "\<not> m_mutex s \<Longrightarrow> \<not> m_joinable s \<Longrightarrow> wait s = Ret False s"
  by (simp add: wait_def MutexAutoLock_def)

lemma wait_past_entry:
  assumes nm: "\<not> m_mutex s" and jn: "m_joinable s" and cur: "m_thread_obj s = Some h"
    and lk: "lookup (threads s) h = Some t" and pe: "pc t \<noteq> Entry"
    and fr: "pc t = AtLock \<Longrightarrow> \<not> m_start_finished_mutex s"
    and dn: "pc t = Done \<Longrightarrow> \<not> m_running s"
    and cn: "cancel t \<Longrightarrow> cancel_point (work t) \<Longrightarrow> \<not> m_running s"
    and s0: "s0 = (if pc t = AtLock then s\<lparr>m_start_finished_mutex := True\<rparr> else s)"
  shows "wait s =
     (if pc t = Done \<or> cancel t \<and> cancel_point (work t) then
        Ret True (s0\<lparr>threads := (threads s)[h := None], m_thread_obj := None,
                     m_joinable := False\<rparr>)
      else (case returns (work t) (m_request_stop s) of
              None \<Rightarrow> Blocks
            | Some v \<Rightarrow>
                Ret True (s0\<lparr>threads := (threads s)[h := None], m_thread_obj := None,
                             m_joinable := False, m_retval := v, m_running := False\<rparr>)))"
proof -
  define sl where "sl = s\<lparr>m_mutex := True\<rparr>"
  have lk': "lookup (threads sl) h = Some t" using lk by (simp add: sl_def)
  have fr': "pc t = AtLock \<Longrightarrow> \<not> m_start_finished_mutex sl" using fr by (simp add: sl_def)
  note j = join_past_entry [OF lk' pe fr' refl]
  have m: "s\<lparr>m_mutex := False\<rparr> = s" using nm by simp
  have w: "wait s = (case join h sl of
                Blocks \<Rightarrow> Blocks
              | Fault f \<Rightarrow> Fault f
              | Ret _ s1 \<Rightarrow>
                  let s2 = (set_thread h None s1)\<lparr>m_thread_obj := None\<rparr>
                  in if m_running s2 then Fault AssertFailed
                     else Ret True (s2\<lparr>m_joinable := False, m_mutex := False\<rparr>))"
    using nm jn cur
    by (simp add: wait_def MutexAutoLock_def sl_def Let_def split: outcome.splits)
  show ?thesis
  proof (cases "pc t = Done")
    case True
    with dn have nr: "\<not> m_running s" by simp
    from j True have jj: "join h sl = Ret () sl" by simp
    from True s0 nm nr show ?thesis
      by (simp only: w jj) (simp add: sl_def set_thread_def)
  next
    case nd: False
    show ?thesis
    proof (cases "cancel t \<and> cancel_point (work t)")
      case True
      with cn have nr: "\<not> m_running s" by simp
      from j True nd have jj: "join h sl =
          Ret () (set_thread h (Some (t\<lparr>pc := Done\<rparr>))
            (if pc t = AtLock then sl\<lparr>m_start_finished_mutex := True\<rparr> else sl))"
        by simp
      from True nd s0 nm nr show ?thesis
        by (simp only: w jj) (simp add: sl_def set_thread_def)
    next
      case False
      show ?thesis
      proof (cases "returns (work t) (m_request_stop s)")
        case None
        with j False nd have jj: "join h sl = Blocks" by (simp add: sl_def)
        from False nd None show ?thesis by (simp add: w jj)
      next
        case (Some v)
        with j False nd have jj: "join h sl =
          Ret () (set_thread h (Some (t\<lparr>pc := Done\<rparr>))
            ((if pc t = AtLock then sl\<lparr>m_start_finished_mutex := True\<rparr> else sl)
               \<lparr>m_retval := v, m_running := False\<rparr>))"
          by (simp add: sl_def)
        from False nd Some s0 nm show ?thesis
          by (simp only: w jj) (simp add: sl_def set_thread_def)
      qed
    qed
  qed
qed


lemma wait_returns:
  assumes "wait s = Ret b s'"
  shows "\<not> m_joinable s'" and "\<not> m_mutex s'"
    and "m_joinable s \<Longrightarrow> b \<and> \<not> m_running s' \<and> m_thread_obj s' = None \<and>
           (\<exists>h. m_thread_obj s = Some h \<and> lookup (threads s') h = None)"
    and "\<not> m_joinable s \<Longrightarrow> \<not> b \<and> s' = s"
  using assms
  by (auto simp: wait_def MutexAutoLock_def Let_def
      split: if_splits option.splits outcome.splits)

lemma quiescent_started: "quiescent (started name w)"
  by (simp add: quiescent_def thread_ok_def lookup_def finished_def started_def)

lemma kill_not_running_eq:
  "\<not> m_running s \<Longrightarrow>
   kill plat s = (case wait s of Ret r s' \<Rightarrow> Ret False s' | Blocks \<Rightarrow> Blocks | Fault f \<Rightarrow> Fault f)"
  by (simp add: kill_def)

lemma quiescent_completed: "quiescent (completed name w v)"
  by (simp add: quiescent_def thread_ok_def lookup_def finished_def completed_def)

lemma kill_running_returns:
  assumes r: "m_running s" and k: "kill plat s = Ret b s'"
  shows "b \<and> \<not> m_running s' \<and> \<not> m_joinable s' \<and> m_retval s' = NULL \<and> \<not> m_request_stop s'"
proof (cases plat)
  case Win32
  with r k show ?thesis
    by (auto simp: kill_def Let_def TerminateThread_def split: option.splits)
next
  case Android
  with r k show ?thesis
    by (auto simp: kill_def Let_def split: option.splits)
next
  case Posix
  with r k obtain h s2 r3 s3 where c: "s2 = pthread_cancel h (s\<lparr>m_running := False\<rparr>)"
    and w: "wait s2 = Ret r3 s3"
    and s': "s' = s3\<lparr>m_retval := NULL, m_joinable := False, m_request_stop := False\<rparr>" and b: b
    by (auto simp: kill_def Let_def split: option.splits outcome.splits)
  from c have nr: "\<not> m_running s2"
    by (simp add: pthread_cancel_def)
  have "\<not> m_running s3"
  proof (cases "m_joinable s2")
    case True
    with wait_returns(3) [OF w] show ?thesis by simp
  next
    case False
    with wait_returns(4) [OF w] nr show ?thesis by simp
  qed
  with s' b show ?thesis by simp
qed

lemma kill_Win32_running:
  assumes r: "m_running s" and cur: "m_thread_obj s = Some h"
    and lk: "lookup (threads s) h = Some t"
  shows "kill Win32 s =
     Ret True (s\<lparr>m_running := False, threads := (threads s)[h := Some (t\<lparr>pc := Done\<rparr>)],
                  m_retval := NULL, m_joinable := False, m_request_stop := False\<rparr>)"
  using assms by (simp add: kill_def Let_def getThreadHandle_def TerminateThread_def set_thread_def)

lemma kill_Posix_running:
  assumes nm: "\<not> m_mutex s" and r: "m_running s" and jn: "m_joinable s"
    and cur: "m_thread_obj s = Some h" and lk: "lookup (threads s) h = Some t"
    and pe: "pc t \<noteq> Entry" and nd: "pc t \<noteq> Done"
    and fr: "pc t = AtLock \<Longrightarrow> \<not> m_start_finished_mutex s"
    and s0: "s0 = (if pc t = AtLock then s\<lparr>m_start_finished_mutex := True\<rparr> else s)"
  shows "kill Posix s =
     (if cancel_point (work t) \<or> returns (work t) (m_request_stop s) \<noteq> None then
        Ret True (s0\<lparr>m_running := False, threads := (threads s)[h := None],
                     m_thread_obj := None, m_retval := NULL, m_joinable := False,
                     m_request_stop := False\<rparr>)
      else Blocks)"
proof -
  define tc where "tc = t\<lparr>cancel := True\<rparr>"
  define s2 where "s2 = set_thread h (Some tc) (s\<lparr>m_running := False\<rparr>)"
  have hl: "h < length (threads s)" using lk by (rule lookup_Some_less)
  have gh: "getThreadHandle (s\<lparr>m_running := False\<rparr>) = Some h"
    using cur lk by (simp add: getThreadHandle_def)
  have pc2: "pthread_cancel h (s\<lparr>m_running := False\<rparr>) = s2"
    using lk by (simp add: pthread_cancel_def s2_def tc_def)
  have k: "kill Posix s = (case wait s2 of
                     Blocks \<Rightarrow> Blocks
                   | Fault f \<Rightarrow> Fault f
                   | Ret _ s3 \<Rightarrow>
                       Ret True (s3\<lparr>m_retval := NULL, m_joinable := False,
                                    m_request_stop := False\<rparr>))"
    using r by (simp add: kill_def Let_def gh pc2)
  have a: "\<not> m_mutex s2" "m_joinable s2" "m_thread_obj s2 = Some h"
    "lookup (threads s2) h = Some tc" "pc tc \<noteq> Entry"
    "pc tc = AtLock \<Longrightarrow> \<not> m_start_finished_mutex s2"
    "pc tc = Done \<Longrightarrow> \<not> m_running s2"
    "cancel tc \<Longrightarrow> cancel_point (work tc) \<Longrightarrow> \<not> m_running s2"
    using nm jn cur hl pe fr by (simp_all add: s2_def tc_def)
  note w = wait_past_entry [OF a refl]
  have f: "pc tc = pc t" "cancel tc" "work tc = work t" "m_request_stop s2 = m_request_stop s"
    by (simp_all add: tc_def s2_def)
  show ?thesis
  proof (cases "cancel_point (work t)")
    case True
    with w f nd have "wait s2 = Ret True ((if pc t = AtLock then s2\<lparr>m_start_finished_mutex := True\<rparr> else s2)
         \<lparr>threads := (threads s2)[h := None], m_thread_obj := None, m_joinable := False\<rparr>)"
      by simp
    with True s0 show ?thesis
      by (simp only: k) (simp add: s2_def set_thread_def)
  next
    case False
    show ?thesis
    proof (cases "returns (work t) (m_request_stop s)")
      case None
      with w f nd False have "wait s2 = Blocks" by simp
      with False None show ?thesis by (simp add: k)
    next
      case (Some v)
      with w f nd False have "wait s2 = Ret True ((if pc t = AtLock then s2\<lparr>m_start_finished_mutex := True\<rparr> else s2)
         \<lparr>threads := (threads s2)[h := None], m_thread_obj := None, m_joinable := False,
           m_retval := v, m_running := False\<rparr>)"
        by simp
      with False Some s0 show ?thesis
        by (simp only: k) (simp add: s2_def set_thread_def)
    qed
  qed
qed

lemma other_threads_Done:
  "(\<forall>h' \<in> set [0 ..< length (threads s)]. h' \<noteq> h \<longrightarrow>
         (case lookup (threads s) h' of None \<Rightarrow> True | Some t' \<Rightarrow> pc t' = Done \<and> \<not> cancel t')) \<longleftrightarrow>
   (\<forall>h' t'. h' \<noteq> h \<longrightarrow> lookup (threads s) h' = Some t' \<longrightarrow> pc t' = Done \<and> \<not> cancel t')"
  (is "?L \<longleftrightarrow> ?R")
proof
  assume l: ?L
  show ?R
  proof (intro allI impI)
    fix h' t' assume ne: "h' \<noteq> h" and lk: "lookup (threads s) h' = Some t'"
    from lk have "h' < length (threads s)" by (rule lookup_Some_less)
    with l ne have "case lookup (threads s) h' of None \<Rightarrow> True
        | Some t' \<Rightarrow> pc t' = Done \<and> \<not> cancel t'"
      by simp
    with lk show "pc t' = Done \<and> \<not> cancel t'" by simp
  qed
next
  assume r: ?R
  show ?L
  proof (intro ballI impI)
    fix h' assume "h' \<noteq> h"
    with r show "case lookup (threads s) h' of None \<Rightarrow> True
        | Some t' \<Rightarrow> pc t' = Done \<and> \<not> cancel t'"
      by (cases "lookup (threads s) h'") simp_all
  qed
qed

lemma starting_iff:
  "starting h s \<longleftrightarrow>
     m_mutex s \<and> m_thread_obj s = Some h \<and>
     (\<exists>t. lookup (threads s) h = Some t \<and> \<not> cancel t \<and>
          m_running s = (pc t = AtLock \<or> pc t = InRun) \<and>
          (pc t = Entry \<or> pc t = AtLock \<longrightarrow> \<not> m_start_finished_mutex s)) \<and>
     (\<forall>h' t'. h' \<noteq> h \<longrightarrow> lookup (threads s) h' = Some t' \<longrightarrow> pc t' = Done \<and> \<not> cancel t')"
  unfolding starting_def other_threads_Done
  by (cases "lookup (threads s) h") simp_all

lemma starting_step:
  assumes st: "starting h s" and ts: "thread_step h s = Some s'"
  shows "starting h s'"
proof -
  from st obtain t where a: "m_mutex s" "m_thread_obj s = Some h" "lookup (threads s) h = Some t"
    "\<not> cancel t" "m_running s = (pc t = AtLock \<or> pc t = InRun)"
    "pc t = Entry \<or> pc t = AtLock \<longrightarrow> \<not> m_start_finished_mutex s"
    and o: "\<forall>h' t'. h' \<noteq> h \<longrightarrow> lookup (threads s) h' = Some t' \<longrightarrow> pc t' = Done \<and> \<not> cancel t'"
    unfolding starting_iff by auto
  have hl: "h < length (threads s)" using a(3) by (rule lookup_Some_less)
  from ts show ?thesis
  proof (cases rule: thread_step_cases)
    case (entry u)
    with a have u: "u = t" by simp
    from a o hl entry u show ?thesis
      unfolding starting_iff by simp
  next
    case (lock u)
    with a have u: "u = t" by simp
    from a o hl lock u show ?thesis
      unfolding starting_iff by simp
  next
    case (cancelled u)
    with a show ?thesis by simp
  next
    case (returned u v)
    with a have u: "u = t" by simp
    from a o hl returned u show ?thesis
      unfolding starting_iff by simp
  qed
qed

lemma start_while_running_eq:
  "m_running s \<Longrightarrow> \<not> m_mutex s \<Longrightarrow> start spawn sched s = Ret False s"
  by (simp add: start_def MutexAutoLock_def)

lemma starting_steps: "starting h s \<Longrightarrow> starting h (thread_steps n h s)"
  by (induction n arbitrary: s) (auto split: option.splits intro: starting_step)

lemma await_running_starting:
  assumes "await_running sched h i s = Some s'"
  shows "starting h s \<longrightarrow> starting h s' \<and> m_running s'"
proof (rule await_running.raw_induct [where P = "\<lambda>sched h i s y. starting h s \<longrightarrow> starting h y \<and> m_running y"
        and sched = sched and h = h and i = i and s = s and y = s'])
  fix f :: "(nat \<Rightarrow> nat) \<Rightarrow> handle \<Rightarrow> nat \<Rightarrow> state \<Rightarrow> state option"
    and sched h i s y
  assume ih: "\<And>sched h i s y. f sched h i s = Some y \<Longrightarrow>
      starting h s \<longrightarrow> starting h y \<and> m_running y"
    and eq: "(let s' = thread_steps (sched i) h s
              in if m_running s' then Some s' else f sched h (Suc i) s') = Some y"
  show "starting h s \<longrightarrow> starting h y \<and> m_running y"
  proof
    assume st: "starting h s"
    have st': "starting h (thread_steps (sched i) h s)" using st by (rule starting_steps)
    show "starting h y \<and> m_running y"
    proof (cases "m_running (thread_steps (sched i) h s)")
      case True
      with eq have "y = thread_steps (sched i) h s" by (simp add: Let_def)
      with True st' show ?thesis by simp
    next
      case False
      with eq have "f sched h (Suc i) (thread_steps (sched i) h s) = Some y"
        by (simp add: Let_def)
      from ih [OF this] st' show ?thesis by simp
    qed
  qed
qed (rule assms)

text \<open>The state in which \<open>start()\<close> begins to poll, and the one it returns.\<close>

lemma lookup_append:
  "lookup (ts @ [x]) h =
     (if h < length ts then lookup ts h else if h = length ts then x else None)"
  by (simp add: lookup_def nth_append)

lemma starting_initial:
  assumes q: "quiescent s" and nr: "\<not> m_running s"
  shows "starting (length (threads s))
     (s\<lparr>m_mutex := True, m_request_stop := False,
        threads := threads s @ [Some \<lparr>pc = Entry, work = w, cancel = False\<rparr>],
        m_thread_obj := Some (length (threads s)), m_start_finished_mutex := False\<rparr>)"
proof -
  have o: "pc t' = Done \<and> \<not> cancel t'" if "lookup (threads s) h' = Some t'" for h' t'
    using quiescent_threadD(2,4) [OF q that] nr by auto
  show ?thesis
    unfolding starting_iff
    by (auto simp: lookup_append nr dest: o split: if_splits)
qed

lemma starting_quiescent:
  assumes st: "starting h s" and r: "m_running s"
  shows "quiescent (s\<lparr>m_joinable := True, m_mutex := False\<rparr>)"
proof -
  from st obtain t where a: "m_mutex s" "m_thread_obj s = Some h" "lookup (threads s) h = Some t"
    "\<not> cancel t" "m_running s = (pc t = AtLock \<or> pc t = InRun)"
    "pc t = Entry \<or> pc t = AtLock \<longrightarrow> \<not> m_start_finished_mutex s"
    and o: "\<forall>h' t'. h' \<noteq> h \<longrightarrow> lookup (threads s) h' = Some t' \<longrightarrow> pc t' = Done \<and> \<not> cancel t'"
    unfolding starting_iff by auto
  show ?thesis
  proof (rule quiescentI)
    fix h' t' assume lk: "lookup (threads (s\<lparr>m_joinable := True, m_mutex := False\<rparr>)) h' = Some t'"
    show "pc t' \<noteq> Entry \<and> \<not> cancel t' \<and>
        (pc t' \<noteq> Done \<longrightarrow>
           m_thread_obj (s\<lparr>m_joinable := True, m_mutex := False\<rparr>) = Some h' \<and>
           m_running (s\<lparr>m_joinable := True, m_mutex := False\<rparr>) \<and>
           (pc t' = AtLock \<longrightarrow> \<not> m_start_finished_mutex (s\<lparr>m_joinable := True, m_mutex := False\<rparr>)))"
    proof (cases "h' = h")
      case True
      with lk a have "t' = t" by simp
      with True a r show ?thesis by auto
    next
      case False
      with o lk show ?thesis by simp
    qed
  qed (use a r in auto)
qed

lemma quiescent_start:
  assumes q: "quiescent s" and st: "start spawn sched s = Ret b s'"
  shows "quiescent s'"
proof (cases "m_running s")
  case True
  with quiescentD(1) [OF q] st show ?thesis
    using q by (simp add: start_while_running_eq)
next
  case nr: False
  note nm = quiescentD(1) [OF q]
  show ?thesis
  proof (cases spawn)
    case None
    with st nm nr have s': "s' = s\<lparr>m_request_stop := False, m_start_finished_mutex := True\<rparr>"
      by (simp add: start_spawn_failure)
    have o: "pc t' = Done \<and> \<not> cancel t'" if "lookup (threads s) h' = Some t'" for h' t'
      using quiescent_threadD(2,4) [OF q that] nr by auto
    show ?thesis
      unfolding s'
      by (rule quiescentI) (use nm nr quiescentD(3) [OF q] o in auto)
  next
    case (Some w)
    define s4 where "s4 = s\<lparr>m_mutex := True, m_request_stop := False,
        threads := threads s @ [Some \<lparr>pc = Entry, work = w, cancel = False\<rparr>],
        m_thread_obj := Some (length (threads s)), m_start_finished_mutex := False\<rparr>"
    from st nm nr Some obtain s5
      where aw: "await_running sched (length (threads s)) 0 s4 = Some s5"
        and s': "s' = s5\<lparr>m_joinable := True, m_mutex := False\<rparr>"
      by (auto simp: start_def MutexAutoLock_def Let_def s4_def split: option.splits)
    have "starting (length (threads s)) s4"
      unfolding s4_def using q nr by (rule starting_initial)
    with await_running_starting [OF aw] have "starting (length (threads s)) s5" "m_running s5"
      by simp_all
    then show ?thesis unfolding s' by (rule starting_quiescent)
  qed
qed

lemma quiescent_stop: "quiescent s \<Longrightarrow> quiescent (snd (stop s))"
  by (simp add: quiescent_iff stop_def)

lemma quiescent_wait:
  assumes q: "quiescent s" and w: "wait s = Ret b s'"
  shows "quiescent s'"
proof (cases "m_joinable s")
  case False
  with wait_returns(4) [OF w] q show ?thesis by simp
next
  case True
  note nm = quiescentD(1) [OF q]
  from quiescentD(3) [OF q True] obtain h t
    where cur: "m_thread_obj s = Some h" and lk: "lookup (threads s) h = Some t" by auto
  note tq = quiescent_threadD [OF q lk]
  have dn: "pc t = Done \<Longrightarrow> \<not> m_running s"
    using quiescentD(4) [OF q] cur lk by auto
  have cn: "cancel t \<Longrightarrow> cancel_point (work t) \<Longrightarrow> \<not> m_running s"
    using tq(2) by simp
  note wp = wait_past_entry [OF nm True cur lk tq(1) tq(5) dn cn refl]
  have o: "pc t' = Done \<and> \<not> cancel t'" if "lookup (threads s) h' = Some t'" "h' \<noteq> h" for h' t'
    using quiescent_threadD(2,3) [OF q that(1)] that(2) cur by auto
  have f: "\<not> m_mutex s' \<and> \<not> m_running s' \<and> \<not> m_joinable s' \<and> m_thread_obj s' = None \<and>
      threads s' = (threads s)[h := None]"
    using w wp tq(2) nm dn by (auto split: if_splits option.splits)
  show ?thesis
  proof (rule quiescentI)
    fix h' t' assume "lookup (threads s') h' = Some t'"
    with f have "lookup (threads s) h' = Some t' \<and> h' \<noteq> h"
      by (auto split: if_splits)
    with o [of h' t'] show "pc t' \<noteq> Entry \<and> \<not> cancel t' \<and>
        (pc t' \<noteq> Done \<longrightarrow>
           m_thread_obj s' = Some h' \<and> m_running s' \<and>
           (pc t' = AtLock \<longrightarrow> \<not> m_start_finished_mutex s'))"
      by simp
  qed (use f in simp_all)
qed


lemma quiescent_kill:
  assumes q: "quiescent s" and k: "kill plat s = Ret b s'"
  shows "quiescent s'"
proof (cases "m_running s")
  case False
  with k obtain r where "wait s = Ret r s'"
    by (auto simp: kill_not_running_eq split: outcome.splits)
  with q show ?thesis by (rule quiescent_wait)
next
  case r: True
  note nm = quiescentD(1) [OF q]
  from quiescentD(4) [OF q r] obtain h t
    where cur: "m_thread_obj s = Some h" and lk: "lookup (threads s) h = Some t"
      and nd: "pc t \<noteq> Done" by auto
  note tq = quiescent_threadD [OF q lk]
  have hl: "h < length (threads s)" using lk by (rule lookup_Some_less)
  have o: "pc t' = Done \<and> \<not> cancel t'" if "lookup (threads s) h' = Some t'" "h' \<noteq> h" for h' t'
    using quiescent_threadD(2,3) [OF q that(1)] that(2) cur by auto
  show ?thesis
  proof (cases plat)
    case Win32
    with k kill_Win32_running [OF r cur lk]
    have f: "\<not> m_mutex s' \<and> \<not> m_running s' \<and> \<not> m_joinable s' \<and>
        threads s' = (threads s)[h := Some (t\<lparr>pc := Done\<rparr>)]"
      using nm by auto
    show ?thesis
    proof (rule quiescentI)
      fix h' t' assume "lookup (threads s') h' = Some t'"
      with f hl have "(h' = h \<and> t' = t\<lparr>pc := Done\<rparr>) \<or> (lookup (threads s) h' = Some t' \<and> h' \<noteq> h)"
        by (auto split: if_splits)
      with o [of h' t'] tq(2) show "pc t' \<noteq> Entry \<and> \<not> cancel t' \<and>
        (pc t' \<noteq> Done \<longrightarrow>
           m_thread_obj s' = Some h' \<and> m_running s' \<and>
           (pc t' = AtLock \<longrightarrow> \<not> m_start_finished_mutex s'))"
        by auto
    qed (use f in simp_all)
  next
    case Android
    with k r show ?thesis
      by (auto simp: kill_def Let_def split: option.splits)
  next
    case Posix
    with k kill_Posix_running [OF nm r quiescentD(2) [OF q r] cur lk tq(1) nd tq(5) refl]
    have f: "\<not> m_mutex s' \<and> \<not> m_running s' \<and> \<not> m_joinable s' \<and> m_thread_obj s' = None \<and>
        threads s' = (threads s)[h := None]"
      using nm by (auto split: if_splits)
    show ?thesis
    proof (rule quiescentI)
      fix h' t' assume "lookup (threads s') h' = Some t'"
      with f have "lookup (threads s) h' = Some t' \<and> h' \<noteq> h"
        by (auto split: if_splits)
      with o [of h' t'] show "pc t' \<noteq> Entry \<and> \<not> cancel t' \<and>
        (pc t' \<noteq> Done \<longrightarrow>
           m_thread_obj s' = Some h' \<and> m_running s' \<and>
           (pc t' = AtLock \<longrightarrow> \<not> m_start_finished_mutex s'))"
        by simp
    qed (use f in simp_all)
  qed
qed

text \<open>Every state a single caller reaches satisfies the invariant.\<close>

lemma reachable_quiescent: "reachable plat s \<Longrightarrow> quiescent s"
proof (induction rule: reachable.induct)
  case (fresh name junk)
  show ?case by (rule quiescent_Thread)
next
  case (by_start s spawn sched b s')
  from by_start(3,2) show ?case by (rule quiescent_start)
next
  case (by_stop s)
  from by_stop(2) show ?case by (rule quiescent_stop)
next
  case (by_wait s b s')
  from by_wait(3,2) show ?case by (rule quiescent_wait)
next
  case (by_kill s b s')
  from by_kill(3,2) show ?case by (rule quiescent_kill)
next
  case (by_step s h s')
  from by_step(3,2) show ?case by (rule quiescent_thread_step)
qed

text \<open>Until the thread has terminated, its steps leave \<open>m_retval\<close> alone.\<close>

lemma thread_step_retval:
  assumes "thread_step h s = Some s'" and "\<not> finished h s'"
  shows "m_retval s' = m_retval s"
  using assms
  by (cases rule: thread_step_cases) (auto simp: finished_def dest: lookup_Some_less)

lemma thread_step_finished:
  "finished h s \<Longrightarrow> thread_step h s = None"
  by (auto simp: finished_def thread_step_def split: option.splits)

lemma thread_steps_finished: "finished h s \<Longrightarrow> thread_steps n h s = s"
  by (simp add: thread_steps_stuck thread_step_finished)

lemma thread_steps_retval:
  "\<not> finished h (thread_steps n h s) \<Longrightarrow>
   m_retval (thread_steps n h s) = m_retval s \<and> \<not> finished h s"
proof (induction n arbitrary: s)
  case 0
  then show ?case by simp
next
  case (Suc n)
  show ?case
  proof (cases "thread_step h s")
    case None
    with Suc.prems show ?thesis by simp
  next
    case (Some s1)
    with Suc.prems have nf: "\<not> finished h (thread_steps n h s1)" by simp
    from Suc.IH [OF nf] have a: "m_retval (thread_steps n h s1) = m_retval s1" "\<not> finished h s1"
      by simp_all
    from thread_step_retval [OF Some a(2)] a(1) Some
    have "m_retval (thread_steps (Suc n) h s) = m_retval s" by simp
    moreover have "\<not> finished h s"
      using Some thread_step_finished [of h s] by auto
    ultimately show ?thesis by simp
  qed
qed

lemma starting_running_not_finished:
  "starting h s \<Longrightarrow> m_running s \<Longrightarrow> \<not> finished h s"
  unfolding starting_iff by (auto simp: finished_def)

lemma await_running_retval:
  assumes "await_running sched h i s = Some s'"
  shows "starting h s \<longrightarrow> \<not> finished h s \<and> m_retval s' = m_retval s"
proof (rule await_running.raw_induct [where P = "\<lambda>sched h i s y. starting h s \<longrightarrow> \<not> finished h s \<and> m_retval y = m_retval s"
        and sched = sched and h = h and i = i and s = s and y = s'])
  fix f :: "(nat \<Rightarrow> nat) \<Rightarrow> handle \<Rightarrow> nat \<Rightarrow> state \<Rightarrow> state option"
    and sched h i s y
  assume ih: "\<And>sched h i s y. f sched h i s = Some y \<Longrightarrow>
      starting h s \<longrightarrow> \<not> finished h s \<and> m_retval y = m_retval s"
    and eq: "(let s' = thread_steps (sched i) h s
              in if m_running s' then Some s' else f sched h (Suc i) s') = Some y"
  show "starting h s \<longrightarrow> \<not> finished h s \<and> m_retval y = m_retval s"
  proof
    assume st: "starting h s"
    have st': "starting h (thread_steps (sched i) h s)" using st by (rule starting_steps)
    show "\<not> finished h s \<and> m_retval y = m_retval s"
    proof (cases "m_running (thread_steps (sched i) h s)")
      case True
      with eq have y: "y = thread_steps (sched i) h s" by (simp add: Let_def)
      from thread_steps_retval [OF starting_running_not_finished [OF st' True]]
      show ?thesis unfolding y by simp
    next
      case False
      with eq have "f sched h (Suc i) (thread_steps (sched i) h s) = Some y"
        by (simp add: Let_def)
      from ih [OF this] st'
      have a: "\<not> finished h (thread_steps (sched i) h s)"
        "m_retval y = m_retval (thread_steps (sched i) h s)" by simp_all
      from thread_steps_retval [OF a(1)] a(2) show ?thesis by simp
    qed
  qed
qed (rule assms)

lemma start_retval:
  assumes q: "quiescent s" and st: "start spawn sched s = Ret b s'"
  shows "m_retval s' = m_retval s"
proof (cases "m_running s")
  case True
  with quiescentD(1) [OF q] st show ?thesis by (simp add: start_while_running_eq)
next
  case nr: False
  note nm = quiescentD(1) [OF q]
  show ?thesis
  proof (cases spawn)
    case None
    with st nm nr show ?thesis by (auto simp: start_spawn_failure)
  next
    case (Some w)
    define s4 where "s4 = s\<lparr>m_mutex := True, m_request_stop := False,
        threads := threads s @ [Some \<lparr>pc = Entry, work = w, cancel = False\<rparr>],
        m_thread_obj := Some (length (threads s)), m_start_finished_mutex := False\<rparr>"
    from st nm nr Some obtain s5
      where aw: "await_running sched (length (threads s)) 0 s4 = Some s5"
        and s': "s' = s5\<lparr>m_joinable := True, m_mutex := False\<rparr>"
      by (auto simp: start_def MutexAutoLock_def Let_def s4_def split: option.splits)
    have "starting (length (threads s)) s4"
      unfolding s4_def using q nr by (rule starting_initial)
    with await_running_retval [OF aw] have "m_retval s5 = m_retval s4" by simp
    then show ?thesis by (simp add: s' s4_def)
  qed
qed

lemma wait_idle_retval:
  assumes q: "quiescent s" and nr: "\<not> m_running s" and w: "wait s = Ret b s'"
  shows "m_retval s' = m_retval s"
proof (cases "m_joinable s")
  case False
  with wait_returns(4) [OF w] show ?thesis by simp
next
  case True
  from quiescentD(3) [OF q True] obtain h t
    where cur: "m_thread_obj s = Some h" and lk: "lookup (threads s) h = Some t" by auto
  note tq = quiescent_threadD [OF q lk]
  from tq(4) nr have dn: "pc t = Done" by auto
  from wait_past_entry [OF quiescentD(1) [OF q] True cur lk tq(1) tq(5) _ _ refl] dn nr w
  show ?thesis by auto
qed

lemma wait_running_retval:
  assumes q: "quiescent s" and r: "m_running s" and cur: "m_thread_obj s = Some h"
    and lk: "lookup (threads s) h = Some t"
    and v: "returns (work t) (m_request_stop s) = Some v" and w: "wait s = Ret b s'"
  shows "m_retval s' = v"
proof -
  note tq = quiescent_threadD [OF q lk]
  from quiescentD(4) [OF q r] cur lk have nd: "pc t \<noteq> Done" by auto
  from wait_past_entry [OF quiescentD(1) [OF q] quiescentD(2) [OF q r] cur lk tq(1) tq(5) _ _ refl]
    nd tq(2) v w
  show ?thesis by auto
qed

lemma last_run_retval: "last_run plat s v \<Longrightarrow> quiescent s \<and> m_retval s = v"
proof (induction rule: last_run.induct)
  case (run_returns s h t v s')
  note nc = quiescent_threadD(2) [OF run_returns(1,2)]
  from run_returns(5) have "m_retval s' = v"
  proof (cases rule: thread_step_cases)
    case (returned u w)
    with run_returns(2,4) show ?thesis by simp
  next
    case (cancelled u)
    with run_returns(2) nc show ?thesis by simp
  next
    case (entry u)
    with run_returns(2,3) show ?thesis by simp
  next
    case (lock u)
    with run_returns(2,3) show ?thesis by simp
  qed
  with quiescent_thread_step [OF run_returns(1,5)] show ?case by simp
next
  case (run_returns_in_wait s h t v b s')
  from quiescent_wait [OF run_returns_in_wait(1,6)]
    wait_running_retval [OF run_returns_in_wait(1-6)]
  show ?case by simp
next
  case (after_stop s v)
  then have "quiescent s" "m_retval s = v" by simp_all
  with quiescent_stop [of s] show ?case by (simp add: stop_def)
next
  case (after_start s v spawn sched b s')
  then have q: "quiescent s" and r: "m_retval s = v" by simp_all
  from quiescent_start [OF q after_start(2)] start_retval [OF q after_start(2)] r
  show ?case by simp
next
  case (after_wait s v b s')
  then have q: "quiescent s" and r: "m_retval s = v" by simp_all
  from quiescent_wait [OF q after_wait(3)] wait_idle_retval [OF q after_wait(2,3)] r
  show ?case by simp
next
  case (after_kill s v b s')
  then have q: "quiescent s" and r: "m_retval s = v" by simp_all
  from after_kill(2,3) obtain r' where w: "wait s = Ret r' s'"
    by (auto simp: kill_not_running_eq split: outcome.splits)
  from quiescent_wait [OF q w] wait_idle_retval [OF q after_kill(2) w] r
  show ?case by simp
next
  case (after_step s v h t s')
  then have q: "quiescent s" and r: "m_retval s = v" by simp_all
  from after_step(4) have "m_retval s' = m_retval s"
  proof (cases rule: thread_step_cases)
    case (returned u w)
    with after_step(2,3) show ?thesis by simp
  next
    case (cancelled u)
    with after_step(2,3) show ?thesis by simp
  next
    case (entry u)
    then show ?thesis by simp
  next
    case (lock u)
    then show ?thesis by simp
  qed
  with quiescent_thread_step [OF q after_step(4)] r show ?case by simp
qed

text \<open>The wrapper is blind to the stop flag: it reaches the outcome only through \<open>run()\<close>.\<close>

lemma ignores_stopD: "ignores_stop w \<Longrightarrow> returns w b = returns w c"
  by (cases b; cases c) (simp_all add: ignores_stop_def)

lemma all_ignore_stopD:
  "all_ignore_stop s \<Longrightarrow> lookup (threads s) h = Some t \<Longrightarrow> ignores_stop (work t)"
  by (auto simp: all_ignore_stop_def lookup_def split: if_splits dest!: nth_mem)

lemma all_ignore_stop_flag [simp]:
  "all_ignore_stop (s\<lparr>m_request_stop := b\<rparr>) = all_ignore_stop s"
  "all_ignore_stop (s\<lparr>m_mutex := b\<rparr>) = all_ignore_stop s"
  "all_ignore_stop (s\<lparr>m_running := b\<rparr>) = all_ignore_stop s"
  by (simp_all add: all_ignore_stop_def)

lemma thread_step_stop_flag:
  assumes "all_ignore_stop s"
  shows "thread_step h (s\<lparr>m_request_stop := b\<rparr>) =
     map_option (\<lambda>s'. s'\<lparr>m_request_stop := b\<rparr>) (thread_step h s)"
proof (cases "lookup (threads s) h")
  case None
  then show ?thesis by (simp add: thread_step_def)
next
  case (Some t)
  from all_ignore_stopD [OF assms Some]
  have "returns (work t) b = returns (work t) (m_request_stop s)" by (rule ignores_stopD)
  with Some show ?thesis
    by (auto simp: thread_step_def set_thread_def split: pc.splits option.splits)
qed

lemma all_ignore_stop_step:
  assumes "all_ignore_stop s" and "thread_step h s = Some s'"
  shows "all_ignore_stop s'"
proof -
  have u: "all_ignore_stop (set_thread h (Some (t\<lparr>pc := p\<rparr>)) s1)"
    if "threads s1 = threads s" "lookup (threads s) h = Some t" for s1 t p
  proof -
    from all_ignore_stopD [OF assms(1) that(2)] have "ignores_stop (work t)" .
    with assms(1) that(1) show ?thesis
      by (auto simp: all_ignore_stop_def set_thread_def
          dest!: set_update_subset_insert [THEN subsetD])
  qed
  from assms(2) show ?thesis
    by (cases rule: thread_step_cases) (auto intro!: u)
qed

lemma thread_steps_stop_flag:
  "all_ignore_stop s \<Longrightarrow>
   thread_steps n h (s\<lparr>m_request_stop := b\<rparr>) = (thread_steps n h s)\<lparr>m_request_stop := b\<rparr>"
proof (induction n arbitrary: s)
  case 0
  show ?case by simp
next
  case (Suc n)
  show ?case
  proof (cases "thread_step h s")
    case None
    with Suc.prems show ?thesis by (simp add: thread_step_stop_flag)
  next
    case (Some s1)
    from all_ignore_stop_step [OF Suc.prems Some] have "all_ignore_stop s1" .
    from Suc.IH [OF this] Some Suc.prems show ?thesis
      by (simp add: thread_step_stop_flag)
  qed
qed

lemma join_stop_flag:
  assumes "all_ignore_stop s"
  shows "join h (s\<lparr>m_request_stop := b\<rparr>) =
     (case join h s of Ret r s' \<Rightarrow> Ret r (s'\<lparr>m_request_stop := b\<rparr>)
        | Blocks \<Rightarrow> Blocks | Fault f \<Rightarrow> Fault f)"
  by (simp add: join_def Let_def thread_steps_stop_flag [OF assms] finished_def
      split: option.splits)

lemma wait_stop_flag:
  assumes "all_ignore_stop s"
  shows "wait (s\<lparr>m_request_stop := b\<rparr>) =
     (case wait s of Ret r s' \<Rightarrow> Ret r (s'\<lparr>m_request_stop := b\<rparr>)
        | Blocks \<Rightarrow> Blocks | Fault f \<Rightarrow> Fault f)"
proof -
  have a: "all_ignore_stop (s\<lparr>m_mutex := True\<rparr>)" using assms by simp
  have c: "s\<lparr>m_request_stop := b, m_mutex := True\<rparr> = s\<lparr>m_mutex := True, m_request_stop := b\<rparr>"
    by simp
  show ?thesis
    unfolding wait_def MutexAutoLock_def
    by (simp add: c join_stop_flag [OF a] Let_def set_thread_def split: option.splits outcome.splits)
qed


lemma start_stop_flag:
  "forget_stop (start spawn sched (s\<lparr>m_request_stop := b\<rparr>)) = forget_stop (start spawn sched s)"
  by (simp add: start_def MutexAutoLock_def)

lemma getThreadHandle_stop_flag [simp]:
  "getThreadHandle (s\<lparr>m_request_stop := b\<rparr>) = getThreadHandle s"
  by (simp add: getThreadHandle_def split: option.splits)

lemma pthread_cancel_stop_flag:
  "pthread_cancel h (s\<lparr>m_request_stop := b\<rparr>) = (pthread_cancel h s)\<lparr>m_request_stop := b\<rparr>"
  by (simp add: pthread_cancel_def set_thread_def)

lemma all_ignore_stop_cancel:
  assumes "all_ignore_stop s"
  shows "all_ignore_stop (pthread_cancel h s)"
proof (cases "lookup (threads s) h")
  case None
  with assms show ?thesis
    by (auto simp: all_ignore_stop_def pthread_cancel_def set_thread_def
        dest!: set_update_subset_insert [THEN subsetD])
next
  case (Some t)
  from all_ignore_stopD [OF assms Some] have "ignores_stop (work t)" .
  with assms Some show ?thesis
    by (auto simp: all_ignore_stop_def pthread_cancel_def set_thread_def
        dest!: set_update_subset_insert [THEN subsetD])
qed

lemma kill_stop_flag:
  assumes a: "all_ignore_stop s"
  shows "forget_stop (kill plat (s\<lparr>m_request_stop := b\<rparr>)) = forget_stop (kill plat s)"
proof (cases "m_running s")
  case False
  then show ?thesis
    by (simp add: kill_not_running_eq wait_stop_flag [OF a] split: outcome.splits)
next
  case r: True
  have c: "s\<lparr>m_request_stop := b, m_running := False\<rparr> =
      s\<lparr>m_running := False, m_request_stop := b\<rparr>"
    by simp
  have a1: "all_ignore_stop (s\<lparr>m_running := False\<rparr>)" using a by simp
  show ?thesis
  proof (cases plat)
    case Win32
    with r show ?thesis
      by (simp add: kill_def Let_def c TerminateThread_def set_thread_def split: option.splits)
  next
    case Android
    with r show ?thesis
      by (simp add: kill_def Let_def c split: option.splits)
  next
    case Posix
    show ?thesis
    proof (cases "getThreadHandle (s\<lparr>m_running := False\<rparr>)")
      case None
      with r Posix show ?thesis
        by (simp add: kill_def Let_def c)
    next
      case (Some h)
      from all_ignore_stop_cancel [OF a1]
      have "all_ignore_stop (pthread_cancel h (s\<lparr>m_running := False\<rparr>))" .
      from wait_stop_flag [OF this, of b] r Posix Some show ?thesis
        by (simp add: kill_def Let_def c pthread_cancel_stop_flag split: outcome.splits)
    qed
  qed
qed

text \<open>
  The scenarios of the specification: a worker that returns a sentinel is started,
  waited for and queried; a worker that polls the stop flag is waited for in vain
  until \<open>stop()\<close> has been called; a worker that never returns is killed.
\<close>

lemma quiescent_started_stopped: "quiescent (snd (stop (started name w)))"
  by (rule quiescent_stop) (rule quiescent_started)

lemma scenario_sentinel:
  "start (Some sentinel_run) every_tick (Thread ''worker'' None) =
     Ret True (started ''worker'' sentinel_run) \<and>
   m_running (started ''worker'' sentinel_run) \<and>
   wait (started ''worker'' sentinel_run) = Ret True (reaped ''worker'' (Addr 42)) \<and>
   getReturnValue (reaped ''worker'' (Addr 42)) NULL = (True, Addr 42)"
proof -
  have cur: "m_thread_obj (started ''worker'' sentinel_run) = Some 0"
    by (simp add: started_def)
  have lk: "lookup (threads (started ''worker'' sentinel_run)) 0 =
      Some \<lparr>pc = AtLock, work = sentinel_run, cancel = False\<rparr>"
    by (simp add: started_def lookup_def)
  have w: "wait (started ''worker'' sentinel_run) = Ret True (reaped ''worker'' (Addr 42))"
    using wait_past_entry [OF _ _ cur lk _ _ _ _ refl]
    by (simp add: started_def reaped_def sentinel_run_def)
  show ?thesis
    by (simp add: start_fresh w) (simp add: started_def reaped_def getReturnValue_def)
qed

lemma scenario_polling:
  "wait (started ''poller'' polling_run) = Blocks \<and>
   wait (snd (stop (started ''poller'' polling_run))) =
     Ret True ((reaped ''poller'' NULL)\<lparr>m_request_stop := True\<rparr>)"
proof -
  have cur: "m_thread_obj (started ''poller'' polling_run) = Some 0"
    "m_thread_obj (snd (stop (started ''poller'' polling_run))) = Some 0"
    by (simp_all add: started_def stop_def)
  have lk: "lookup (threads (started ''poller'' polling_run)) 0 =
      Some \<lparr>pc = AtLock, work = polling_run, cancel = False\<rparr>"
    "lookup (threads (snd (stop (started ''poller'' polling_run)))) 0 =
      Some \<lparr>pc = AtLock, work = polling_run, cancel = False\<rparr>"
    by (simp_all add: started_def lookup_def stop_def)
  have a: "wait (started ''poller'' polling_run) = Blocks"
    using wait_past_entry [OF _ _ cur(1) lk(1) _ _ _ _ refl]
    by (simp add: started_def polling_run_def)
  have b: "wait (snd (stop (started ''poller'' polling_run))) =
     Ret True ((reaped ''poller'' NULL)\<lparr>m_request_stop := True\<rparr>)"
    using wait_past_entry [OF _ _ cur(2) lk(2) _ _ _ _ refl]
    by (simp add: started_def reaped_def polling_run_def stop_def)
  from a b show ?thesis by simp
qed

text \<open>
  Once the new thread has terminated with \<open>m_running\<close> false, the polling loop of
  \<open>start()\<close> has no exit: a thread that completes its run before the first poll leaves
  \<open>start()\<close> polling for ever.
\<close>

lemma await_running_too_late:
  assumes f: "finished h s" and nr: "\<not> m_running s"
  shows "await_running sched h i s = None"
proof (cases "await_running sched h i s")
  case None
  then show ?thesis .
next
  case (Some y)
  have "\<not> (finished h s \<and> \<not> m_running s)"
  proof (rule await_running.raw_induct [where P = "\<lambda>sched h i s y. \<not> (finished h s \<and> \<not> m_running s)"
        and sched = sched and h = h and i = i and s = s and y = y])
    fix g :: "(nat \<Rightarrow> nat) \<Rightarrow> handle \<Rightarrow> nat \<Rightarrow> state \<Rightarrow> state option"
      and sched h i s y
    assume ih: "\<And>sched h i s y. g sched h i s = Some y \<Longrightarrow> \<not> (finished h s \<and> \<not> m_running s)"
      and eq: "(let s' = thread_steps (sched i) h s
                in if m_running s' then Some s' else g sched h (Suc i) s') = Some y"
    show "\<not> (finished h s \<and> \<not> m_running s)"
    proof
      assume a: "finished h s \<and> \<not> m_running s"
      then have "thread_steps (sched i) h s = s" by (simp add: thread_steps_finished)
      with eq a have "g sched h (Suc i) s = Some y" by (simp add: Let_def)
      from ih [OF this] a show False by simp
    qed
  qed (rule Some)
  with f nr show ?thesis by simp
qed

lemma scenario_race:
  "start (Some sentinel_run) burst (Thread ''worker'' None) = Blocks"
proof -
  define s4 where "s4 = (Thread ''worker'' None)\<lparr>m_mutex := True,
      threads := [Some \<lparr>pc = Entry, work = sentinel_run, cancel = False\<rparr>],
      m_thread_obj := Some 0\<rparr>"
  define s5 where "s5 = thread_steps 3 0 s4"
  have s5: "finished 0 s5 \<and> \<not> m_running s5"
    unfolding s5_def s4_def
    by (simp add: numeral_3_eq_3 thread_step_def lookup_def set_thread_def
        Thread_def sentinel_run_def finished_def)
  have "await_running burst 0 0 s4 = None"
    apply (subst await_running.simps)
    using s5 await_running_too_late [of 0 s5 burst "Suc 0"]
    apply (simp add: burst_def s5_def Let_def)
    done
  then show ?thesis
    by (simp add: start_def MutexAutoLock_def Let_def s4_def Thread_def)
qed

subsection \<open>Claims\<close>

text \<open>
  C6. \<open>start()\<close> called while \<open>running\<close> is true returns false and leaves the instance
  as it was: every field, the native handle included, keeps its value. (The instance
  lock is free when a caller enters, as it is between the calls of one caller.)
\<close>

theorem start_while_running:
  "m_running s \<Longrightarrow> \<not> m_mutex s \<Longrightarrow> start spawn sched s = Ret False s"
  by (simp add: start_def MutexAutoLock_def)

theorem start_while_running_witness:
  "m_running (started ''worker'' sentinel_run) \<and>
   \<not> m_mutex (started ''worker'' sentinel_run) \<and>
   start (Some sentinel_run) every_tick (started ''worker'' sentinel_run) =
     Ret False (started ''worker'' sentinel_run)"
  using start_while_running [of "started ''worker'' sentinel_run" "Some sentinel_run" every_tick]
  by (simp add: started_def)

text \<open>
  C1, as the code has it. When the spawn fails in a \<open>start()\<close> that got as far as the
  spawn, \<open>start()\<close> returns false and \<open>running\<close>, \<open>joinable\<close>, \<open>returnValue\<close> and the
  native handle keep their values; the stop flag has been cleared and the start mutex
  is left locked, whatever they were before.
\<close>

theorem start_spawn_failure_effect:
  "\<not> m_mutex s \<Longrightarrow> \<not> m_running s \<Longrightarrow>
   start None sched s = Ret False (s\<lparr>m_request_stop := False, m_start_finished_mutex := True\<rparr>) \<and>
   m_running (s\<lparr>m_request_stop := False, m_start_finished_mutex := True\<rparr>) = m_running s \<and>
   m_joinable (s\<lparr>m_request_stop := False, m_start_finished_mutex := True\<rparr>) = m_joinable s \<and>
   m_retval (s\<lparr>m_request_stop := False, m_start_finished_mutex := True\<rparr>) = m_retval s \<and>
   m_thread_obj (s\<lparr>m_request_stop := False, m_start_finished_mutex := True\<rparr>) = m_thread_obj s"
  by (simp add: start_spawn_failure)

theorem start_spawn_failure_effect_witness:
  "\<not> m_mutex (snd (stop (Thread ''worker'' None))) \<and>
   \<not> m_running (snd (stop (Thread ''worker'' None))) \<and>
   start None every_tick (snd (stop (Thread ''worker'' None))) =
     Ret False ((Thread ''worker'' None)\<lparr>m_start_finished_mutex := True\<rparr>)"
  using start_spawn_failure_effect [of "snd (stop (Thread ''worker'' None))" every_tick]
  by (simp add: stop_def Thread_def)

text \<open>
  C1 as stated fails: on an instance whose stop flag is set and whose start mutex is
  free, a \<open>start()\<close> whose spawn fails returns false with the stop flag cleared and
  the start mutex locked.
\<close>

theorem start_spawn_failure_not_unchanged:
  "m_request_stop (snd (stop (Thread ''worker'' None))) \<and>
   \<not> m_start_finished_mutex (snd (stop (Thread ''worker'' None))) \<and>
   start None every_tick (snd (stop (Thread ''worker'' None))) =
     Ret False ((Thread ''worker'' None)\<lparr>m_start_finished_mutex := True\<rparr>) \<and>
   \<not> m_request_stop ((Thread ''worker'' None)\<lparr>m_start_finished_mutex := True\<rparr>) \<and>
   m_start_finished_mutex ((Thread ''worker'' None)\<lparr>m_start_finished_mutex := True\<rparr>) \<and>
   (Thread ''worker'' None)\<lparr>m_start_finished_mutex := True\<rparr> \<noteq> snd (stop (Thread ''worker'' None))"
  by (simp add: start_def MutexAutoLock_def stop_def Thread_def)

text \<open>
  C3, as the code has it. \<open>getNumberOfProcessors()\<close> returns the value of
  \<open>std::thread::hardware_concurrency()\<close> as it is; the result is at least 1 exactly
  when that value is not 0.
\<close>

theorem getNumberOfProcessors_forwards:
  "getNumberOfProcessors hc = hc \<and> (1 \<le> getNumberOfProcessors hc) = (hc \<noteq> 0)"
  by (simp add: getNumberOfProcessors_def word_le_nat_alt unat_gt_0 Suc_le_eq)

theorem getNumberOfProcessors_forwards_witness:
  "getNumberOfProcessors 8 = 8 \<and> (1 \<le> getNumberOfProcessors 8) = ((8 :: 32 word) \<noteq> 0)"
  using getNumberOfProcessors_forwards [of 8] by simp

text \<open>
  C3 as stated fails: the standard library reports 0 when the number of processors
  cannot be determined, and \<open>getNumberOfProcessors()\<close> returns that 0.
\<close>

theorem getNumberOfProcessors_zero:
  "getNumberOfProcessors 0 = 0 \<and> \<not> 1 \<le> getNumberOfProcessors 0"
  by (simp add: getNumberOfProcessors_def)

text \<open>
  C10. A freshly constructed instance, whatever its name, is not running, not joinable,
  has no stop request and a null return value. On it \<open>wait()\<close> returns false and
  \<open>kill()\<close> returns false, both leaving it as it is, and \<open>getReturnValue\<close> succeeds
  and yields the null pointer although no run has completed.
\<close>

theorem fresh_instance:
  "\<not> m_running (Thread name junk) \<and> \<not> m_joinable (Thread name junk) \<and>
   \<not> m_request_stop (Thread name junk) \<and> m_retval (Thread name junk) = NULL \<and>
   wait (Thread name junk) = Ret False (Thread name junk) \<and>
   kill plat (Thread name junk) = Ret False (Thread name junk) \<and>
   getReturnValue (Thread name junk) slot = (True, NULL)"
  by (simp add: Thread_def wait_def kill_def MutexAutoLock_def getReturnValue_def)

theorem fresh_instance_witness:
  "wait (Thread ''worker'' None) = Ret False (Thread ''worker'' None) \<and>
   kill Posix (Thread ''worker'' None) = Ret False (Thread ''worker'' None) \<and>
   kill Win32 (Thread ''worker'' (Some 7)) = Ret False (Thread ''worker'' (Some 7)) \<and>
   getReturnValue (Thread ''worker'' None) (Addr 5) = (True, NULL)"
  using fresh_instance [of "''worker''" None Posix "Addr 5"]
    fresh_instance [of "''worker''" "Some 7" Win32 "Addr 5"]
  by simp

text \<open>
  C8. On the POSIX path \<open>setPriority(level)\<close> returns false, setting nothing, when
  \<open>pthread_getschedparam\<close> fails. Otherwise the priority it hands to
  \<open>pthread_setschedparam\<close> is \<open>min + level * (max - min) / MAX_LEVEL\<close> for the range
  of the thread's policy, and it returns whether that call succeeded: this is the only
  result it can have, and it has it whenever \<open>MAX_LEVEL\<close> is not 0 and every
  intermediate value is representable as an \<open>int\<close>.
\<close>

theorem setPriority_posix:
  "(fst (pthread_getschedparam os) \<noteq> 0 \<longrightarrow>
      setPriority False MAX_LEVEL os level = Some (False, None)) \<and>
   (fst (pthread_getschedparam os) = 0 \<and>
    policy = snd (pthread_getschedparam os) \<and>
    pmin = sched_get_priority_min os policy \<and> pmax = sched_get_priority_max os policy \<longrightarrow>
      (\<forall>r. setPriority False MAX_LEVEL os level = Some r \<longrightarrow>
         r = (pthread_setschedparam os policy (native_priority MAX_LEVEL pmin pmax level) = 0,
              Some (native_priority MAX_LEVEL pmin pmax level))) \<and>
      (MAX_LEVEL \<noteq> 0 \<and> representable (pmax - pmin) \<and> representable (level * (pmax - pmin)) \<and>
       representable ((level * (pmax - pmin)) sdiv MAX_LEVEL) \<and>
       representable (native_priority MAX_LEVEL pmin pmax level) \<longrightarrow>
         setPriority False MAX_LEVEL os level =
           Some (pthread_setschedparam os policy (native_priority MAX_LEVEL pmin pmax level) = 0,
                 Some (native_priority MAX_LEVEL pmin pmax level))))"
  apply (intro conjI impI allI)
    apply (simp add: setPriority_def)
   apply (clarsimp simp: setPriority_def Let_def c_int_def c_div_def native_priority_def
      bind_eq_Some_conv split: if_splits)
  apply (simp add: setPriority_def Let_def c_int_def c_div_def native_priority_def)
  done

theorem setPriority_posix_witness:
  "fst (pthread_getschedparam failing_os) \<noteq> 0 \<and>
   setPriority False 4 failing_os 3 = Some (False, None) \<and>
   fst (pthread_getschedparam fifo_os) = 0 \<and>
   native_priority 4 1 99 3 = 74 \<and>
   setPriority False 4 fifo_os 3 = Some (True, Some 74)"
proof -
  have n: "native_priority 4 1 99 3 = 74"
    by (simp add: native_priority_def signed_divide_int_def)
  have r: "representable (99 - 1) \<and> representable (3 * (99 - 1)) \<and>
      representable ((3 * (99 - 1)) sdiv 4) \<and> representable (native_priority 4 1 99 3)"
    unfolding n by (simp add: representable_def INT_MIN_def INT_MAX_def signed_divide_int_def)
  have f0: "fst (pthread_getschedparam failing_os) \<noteq> 0"
    by (simp add: failing_os_def fifo_os_def)
  have g: "fst (pthread_getschedparam fifo_os) = 0 \<and> 1 = snd (pthread_getschedparam fifo_os) \<and>
      1 = sched_get_priority_min fifo_os 1 \<and> 99 = sched_get_priority_max fifo_os 1"
    by (simp add: fifo_os_def)
  have a: "setPriority False 4 failing_os 3 = Some (False, None)"
    using setPriority_posix [of failing_os 4 3 0 0 0] f0 by blast
  have "(4::int) \<noteq> 0" by simp
  with setPriority_posix [of fifo_os 4 3 1 1 99] g r
  have "setPriority False 4 fifo_os 3 =
      Some (pthread_setschedparam fifo_os 1 (native_priority 4 1 99 3) = 0,
            Some (native_priority 4 1 99 3))"
    by blast
  then have b: "setPriority False 4 fifo_os 3 = Some (True, Some 74)"
    unfolding n by (simp add: fifo_os_def)
  from f0 a g n b show ?thesis by blast
qed

text \<open>
  C4. \<open>wait()\<close> on an instance that is not joinable returns false at once and changes
  no field. On a joinable instance it blocks until the native thread has terminated:
  it returns exactly when the thread is finished already or its work function returns,
  and then the thread object is released, the handle is null, \<open>running\<close> is false (the
  assertion after the join holds), \<open>joinable\<close> is false and the result is true;
  otherwise it never returns. Whenever it returns on a joinable instance, these hold.
\<close>

theorem wait_contract:
  "(\<not> m_mutex s \<and> \<not> m_joinable s \<longrightarrow> wait s = Ret False s) \<and>
   (quiescent s \<and> m_joinable s \<longrightarrow>
      (\<exists>h t. m_thread_obj s = Some h \<and> lookup (threads s) h = Some t \<and>
         (if pc t = Done \<or> returns (work t) (m_request_stop s) \<noteq> None
          then \<exists>s'. wait s = Ret True s' \<and> m_thread_obj s' = None \<and>
                 lookup (threads s') h = None \<and> \<not> m_running s' \<and> \<not> m_joinable s' \<and>
                 \<not> m_mutex s' \<and> m_name s' = m_name s \<and>
                 m_request_stop s' = m_request_stop s
          else wait s = Blocks))) \<and>
   (\<forall>b s'. m_joinable s \<and> wait s = Ret b s' \<longrightarrow>
      b \<and> m_thread_obj s' = None \<and> \<not> m_running s' \<and> \<not> m_joinable s' \<and>
      (\<exists>h. m_thread_obj s = Some h \<and> lookup (threads s') h = None))"
proof (intro conjI impI allI)
  assume "\<not> m_mutex s \<and> \<not> m_joinable s"
  then show "wait s = Ret False s" by (simp add: wait_not_joinable)
next
  fix b s' assume "m_joinable s \<and> wait s = Ret b s'"
  then show "b" "m_thread_obj s' = None" "\<not> m_running s'" "\<not> m_joinable s'"
    "\<exists>h. m_thread_obj s = Some h \<and> lookup (threads s') h = None"
    using wait_returns(1,3) [of s b s'] by simp_all
next
  assume a: "quiescent s \<and> m_joinable s"
  then have q: "quiescent s" and jn: "m_joinable s" by simp_all
  from quiescentD(3) [OF q jn] obtain h t
    where cur: "m_thread_obj s = Some h" and lk: "lookup (threads s) h = Some t" by auto
  note tq = quiescent_threadD [OF q lk]
  have hl: "h < length (threads s)" using lk by (rule lookup_Some_less)
  have dn: "pc t = Done \<Longrightarrow> \<not> m_running s"
    using quiescentD(4) [OF q] cur lk by auto
  have cn: "cancel t \<Longrightarrow> cancel_point (work t) \<Longrightarrow> \<not> m_running s"
    using tq(2) by simp
  note w = wait_past_entry [OF quiescentD(1) [OF q] jn cur lk tq(1) tq(5) dn cn refl]
  have "if pc t = Done \<or> returns (work t) (m_request_stop s) \<noteq> None
          then \<exists>s'. wait s = Ret True s' \<and> m_thread_obj s' = None \<and>
                 lookup (threads s') h = None \<and> \<not> m_running s' \<and> \<not> m_joinable s' \<and>
                 \<not> m_mutex s' \<and> m_name s' = m_name s \<and>
                 m_request_stop s' = m_request_stop s
          else wait s = Blocks"
  proof (cases "pc t = Done")
    case True
    with w dn hl quiescentD(1) [OF q] show ?thesis by simp
  next
    case False
    with w tq(2) hl quiescentD(1) [OF q] show ?thesis
      by (cases "returns (work t) (m_request_stop s)") auto
  qed
  with cur lk show "\<exists>h t. m_thread_obj s = Some h \<and> lookup (threads s) h = Some t \<and>
         (if pc t = Done \<or> returns (work t) (m_request_stop s) \<noteq> None
          then \<exists>s'. wait s = Ret True s' \<and> m_thread_obj s' = None \<and>
                 lookup (threads s') h = None \<and> \<not> m_running s' \<and> \<not> m_joinable s' \<and>
                 \<not> m_mutex s' \<and> m_name s' = m_name s \<and>
                 m_request_stop s' = m_request_stop s
          else wait s = Blocks)"
    by blast
qed

theorem wait_contract_witness:
  "\<not> m_mutex (Thread ''worker'' None) \<and> \<not> m_joinable (Thread ''worker'' None) \<and>
   wait (Thread ''worker'' None) = Ret False (Thread ''worker'' None) \<and>
   quiescent (started ''worker'' sentinel_run) \<and> m_joinable (started ''worker'' sentinel_run) \<and>
   (\<exists>s'. wait (started ''worker'' sentinel_run) = Ret True s' \<and> m_thread_obj s' = None \<and>
      lookup (threads s') 0 = None \<and> \<not> m_running s' \<and> \<not> m_joinable s') \<and>
   quiescent (started ''spinner'' spinning_run) \<and> m_joinable (started ''spinner'' spinning_run) \<and>
   wait (started ''spinner'' spinning_run) = Blocks"
proof -
  have a: "\<not> m_mutex (Thread ''worker'' None) \<and> \<not> m_joinable (Thread ''worker'' None)"
    by (simp add: Thread_def)
  with wait_contract [of "Thread ''worker'' None"]
  have b: "wait (Thread ''worker'' None) = Ret False (Thread ''worker'' None)" by simp
  have c: "m_joinable (started ''worker'' sentinel_run)"
    "m_joinable (started ''spinner'' spinning_run)"
    by (simp_all add: started_def)
  from wait_contract [of "started ''worker'' sentinel_run"] quiescent_started c
  obtain h t where ht: "m_thread_obj (started ''worker'' sentinel_run) = Some h"
    "lookup (threads (started ''worker'' sentinel_run)) h = Some t"
    and r: "if pc t = Done \<or> returns (work t) (m_request_stop (started ''worker'' sentinel_run)) \<noteq> None
       then \<exists>s'. wait (started ''worker'' sentinel_run) = Ret True s' \<and> m_thread_obj s' = None \<and>
                 lookup (threads s') h = None \<and> \<not> m_running s' \<and> \<not> m_joinable s' \<and>
                 \<not> m_mutex s' \<and> m_name s' = m_name (started ''worker'' sentinel_run) \<and>
                 m_request_stop s' = m_request_stop (started ''worker'' sentinel_run)
       else wait (started ''worker'' sentinel_run) = Blocks"
    by blast
  from ht have h0: "h = 0" and t0: "t = \<lparr>pc = AtLock, work = sentinel_run, cancel = False\<rparr>"
    by (simp_all add: started_def lookup_def)
  have "returns (work t) (m_request_stop (started ''worker'' sentinel_run)) \<noteq> None"
    by (simp add: t0 sentinel_run_def)
  with r h0 have d: "\<exists>s'. wait (started ''worker'' sentinel_run) = Ret True s' \<and> m_thread_obj s' = None \<and>
      lookup (threads s') 0 = None \<and> \<not> m_running s' \<and> \<not> m_joinable s'"
    by auto
  from wait_contract [of "started ''spinner'' spinning_run"] quiescent_started c
  obtain h' t' where ht': "m_thread_obj (started ''spinner'' spinning_run) = Some h'"
    "lookup (threads (started ''spinner'' spinning_run)) h' = Some t'"
    and r': "if pc t' = Done \<or> returns (work t') (m_request_stop (started ''spinner'' spinning_run)) \<noteq> None
       then \<exists>s'. wait (started ''spinner'' spinning_run) = Ret True s' \<and> m_thread_obj s' = None \<and>
                 lookup (threads s') h' = None \<and> \<not> m_running s' \<and> \<not> m_joinable s' \<and>
                 \<not> m_mutex s' \<and> m_name s' = m_name (started ''spinner'' spinning_run) \<and>
                 m_request_stop s' = m_request_stop (started ''spinner'' spinning_run)
       else wait (started ''spinner'' spinning_run) = Blocks"
    by blast
  from ht' have t0': "t' = \<lparr>pc = AtLock, work = spinning_run, cancel = False\<rparr>"
    by (simp_all add: started_def lookup_def)
  have "\<not> (pc t' = Done \<or>
      returns (work t') (m_request_stop (started ''spinner'' spinning_run)) \<noteq> None)"
    by (simp add: t0' spinning_run_def)
  with r' have e: "wait (started ''spinner'' spinning_run) = Blocks"
    by simp
  from a b c d e quiescent_started show ?thesis by simp
qed

text \<open>
  C7. \<open>kill()\<close> called while \<open>running\<close> is false performs a \<open>wait()\<close> and returns
  false: its outcome is that of the \<open>wait()\<close> with false for the result. Whenever it
  returns, the instance is not joinable and not running. In every state a single caller
  can reach it does return, on a never-started instance as on one whose work function
  has finished without having been waited for, and the return value and the stop flag
  are left alone.
\<close>

theorem kill_not_running:
  "(\<not> m_running s \<longrightarrow>
      kill plat s =
        (case wait s of Ret r s' \<Rightarrow> Ret False s' | Blocks \<Rightarrow> Blocks | Fault f \<Rightarrow> Fault f)) \<and>
   (\<forall>b s'. \<not> m_running s \<and> kill plat s = Ret b s' \<longrightarrow>
      \<not> b \<and> \<not> m_joinable s' \<and> \<not> m_running s') \<and>
   (quiescent s \<and> \<not> m_running s \<longrightarrow>
      (\<exists>s'. kill plat s = Ret False s' \<and> \<not> m_joinable s' \<and> \<not> m_running s' \<and>
         m_thread_obj s' = (if m_joinable s then None else m_thread_obj s) \<and>
         m_retval s' = m_retval s \<and> m_request_stop s' = m_request_stop s))"
proof (intro conjI impI allI)
  assume "\<not> m_running s"
  then show "kill plat s =
      (case wait s of Ret r s' \<Rightarrow> Ret False s' | Blocks \<Rightarrow> Blocks | Fault f \<Rightarrow> Fault f)"
    by (rule kill_not_running_eq)
next
  fix b s' assume a: "\<not> m_running s \<and> kill plat s = Ret b s'"
  then have nr: "\<not> m_running s" by simp
  from a obtain r where w: "wait s = Ret r s'" and b: "\<not> b"
    by (auto simp: kill_not_running_eq split: outcome.splits)
  show "\<not> b" by (rule b)
  show "\<not> m_joinable s'" using wait_returns(1) [OF w] .
  show "\<not> m_running s'"
  proof (cases "m_joinable s")
    case True
    with wait_returns(3) [OF w] show ?thesis by simp
  next
    case False
    with wait_returns(4) [OF w] nr show ?thesis by simp
  qed
next
  assume a: "quiescent s \<and> \<not> m_running s"
  then have q: "quiescent s" and nr: "\<not> m_running s" by simp_all
  note nm = quiescentD(1) [OF q]
  show "\<exists>s'. kill plat s = Ret False s' \<and> \<not> m_joinable s' \<and> \<not> m_running s' \<and>
         m_thread_obj s' = (if m_joinable s then None else m_thread_obj s) \<and>
         m_retval s' = m_retval s \<and> m_request_stop s' = m_request_stop s"
  proof (cases "m_joinable s")
    case False
    with nm nr show ?thesis
      by (simp add: kill_not_running_eq wait_not_joinable)
  next
    case True
    from quiescentD(3) [OF q True] obtain h t
      where cur: "m_thread_obj s = Some h" and lk: "lookup (threads s) h = Some t" by auto
    note tq = quiescent_threadD [OF q lk]
    from tq(4) nr have dn: "pc t = Done" by auto
    have "wait s = Ret True (s\<lparr>threads := (threads s)[h := None], m_thread_obj := None,
                     m_joinable := False\<rparr>)"
      using wait_past_entry [OF nm True cur lk tq(1) tq(5) _ _ refl] dn nr by simp
    with nr True show ?thesis by (simp add: kill_not_running_eq)
  qed
qed

theorem kill_not_running_witness:
  "\<not> m_running (Thread ''worker'' None) \<and> quiescent (Thread ''worker'' None) \<and>
   kill Posix (Thread ''worker'' None) = Ret False (Thread ''worker'' None) \<and>
   \<not> m_running (completed ''worker'' sentinel_run (Addr 42)) \<and>
   quiescent (completed ''worker'' sentinel_run (Addr 42)) \<and>
   m_joinable (completed ''worker'' sentinel_run (Addr 42)) \<and>
   (\<exists>s'. kill Posix (completed ''worker'' sentinel_run (Addr 42)) = Ret False s' \<and>
      \<not> m_joinable s' \<and> \<not> m_running s' \<and> m_thread_obj s' = None \<and> m_retval s' = Addr 42)"
proof -
  have a: "\<not> m_running (Thread ''worker'' None)" by (simp add: Thread_def)
  have w: "wait (Thread ''worker'' None) = Ret False (Thread ''worker'' None)"
    by (simp add: wait_not_joinable Thread_def)
  from kill_not_running [of "Thread ''worker'' None" Posix] a w
  have b: "kill Posix (Thread ''worker'' None) = Ret False (Thread ''worker'' None)" by simp
  have c: "\<not> m_running (completed ''worker'' sentinel_run (Addr 42))"
    "m_joinable (completed ''worker'' sentinel_run (Addr 42))"
    "m_retval (completed ''worker'' sentinel_run (Addr 42)) = Addr 42"
    by (simp_all add: completed_def)
  note k = kill_not_running [of "completed ''worker'' sentinel_run (Addr 42)" Posix,
      THEN conjunct2, THEN conjunct2, rule_format]
  from k [OF conjI [OF quiescent_completed c(1)]] obtain s'
    where s': "kill Posix (completed ''worker'' sentinel_run (Addr 42)) = Ret False s'"
      "\<not> m_joinable s'" "\<not> m_running s'"
      "m_thread_obj s' = (if m_joinable (completed ''worker'' sentinel_run (Addr 42)) then None
         else m_thread_obj (completed ''worker'' sentinel_run (Addr 42)))"
      "m_retval s' = m_retval (completed ''worker'' sentinel_run (Addr 42))"
    by auto
  from s' c have d: "\<exists>s'. kill Posix (completed ''worker'' sentinel_run (Addr 42)) = Ret False s' \<and>
      \<not> m_joinable s' \<and> \<not> m_running s' \<and> m_thread_obj s' = None \<and> m_retval s' = Addr 42"
    by simp
  from a b c d quiescent_Thread quiescent_completed show ?thesis by simp
qed

text \<open>
  C2, as the code has it. Whenever \<open>kill()\<close> returns on a running instance, it returns
  true and \<open>running\<close> is false, \<open>joinable\<close> is false, \<open>returnValue\<close> is null and
  \<open>stopRequested\<close> is false. In every state a single caller can reach with \<open>running\<close>
  true: compiled for Windows, \<open>kill()\<close> returns, the thread is terminated, and the
  handle still points to the thread object, which is neither joined nor released;
  compiled for POSIX (Android apart), \<open>kill()\<close> returns exactly when the work function
  passes a cancellation point or returns, the thread is then joined, its object released
  and the handle null; otherwise \<open>kill()\<close> never returns.
\<close>

theorem kill_running:
  "(\<forall>b s'. m_running s \<and> kill plat s = Ret b s' \<longrightarrow>
      b \<and> \<not> m_running s' \<and> \<not> m_joinable s' \<and> m_retval s' = NULL \<and> \<not> m_request_stop s') \<and>
   (quiescent s \<and> m_running s \<longrightarrow>
      (\<exists>h t. m_thread_obj s = Some h \<and> lookup (threads s) h = Some t \<and>
         (\<exists>s'. kill Win32 s = Ret True s' \<and> \<not> m_running s' \<and> \<not> m_joinable s' \<and>
            m_retval s' = NULL \<and> \<not> m_request_stop s' \<and>
            m_thread_obj s' = Some h \<and> lookup (threads s') h = Some (t\<lparr>pc := Done\<rparr>)) \<and>
         (if cancel_point (work t) \<or> returns (work t) (m_request_stop s) \<noteq> None
          then \<exists>s'. kill Posix s = Ret True s' \<and> \<not> m_running s' \<and> \<not> m_joinable s' \<and>
                 m_retval s' = NULL \<and> \<not> m_request_stop s' \<and>
                 m_thread_obj s' = None \<and> lookup (threads s') h = None
          else kill Posix s = Blocks)))"
proof (intro conjI impI allI)
  fix b s' assume "m_running s \<and> kill plat s = Ret b s'"
  then have "b \<and> \<not> m_running s' \<and> \<not> m_joinable s' \<and> m_retval s' = NULL \<and> \<not> m_request_stop s'"
    using kill_running_returns [of s plat b s'] by simp
  then show b "\<not> m_running s'" "\<not> m_joinable s'" "m_retval s' = NULL" "\<not> m_request_stop s'"
    by simp_all
next
  assume "quiescent s \<and> m_running s"
  then have q: "quiescent s" and r: "m_running s" by simp_all
  from quiescentD(4) [OF q r] obtain h t
    where cur: "m_thread_obj s = Some h" and lk: "lookup (threads s) h = Some t"
      and nd: "pc t \<noteq> Done" by auto
  note tq = quiescent_threadD [OF q lk]
  have hl: "h < length (threads s)" using lk by (rule lookup_Some_less)
  note win = kill_Win32_running [OF r cur lk]
  note psx = kill_Posix_running [OF quiescentD(1) [OF q] r quiescentD(2) [OF q r] cur lk
      tq(1) nd tq(5) refl]
  have a: "\<exists>s'. kill Win32 s = Ret True s' \<and> \<not> m_running s' \<and> \<not> m_joinable s' \<and>
            m_retval s' = NULL \<and> \<not> m_request_stop s' \<and>
            m_thread_obj s' = Some h \<and> lookup (threads s') h = Some (t\<lparr>pc := Done\<rparr>)"
    using cur hl by (simp add: win)
  have b: "if cancel_point (work t) \<or> returns (work t) (m_request_stop s) \<noteq> None
          then \<exists>s'. kill Posix s = Ret True s' \<and> \<not> m_running s' \<and> \<not> m_joinable s' \<and>
                 m_retval s' = NULL \<and> \<not> m_request_stop s' \<and>
                 m_thread_obj s' = None \<and> lookup (threads s') h = None
          else kill Posix s = Blocks"
    using hl by (simp add: psx)
  from cur lk a b show "\<exists>h t. m_thread_obj s = Some h \<and> lookup (threads s) h = Some t \<and>
         (\<exists>s'. kill Win32 s = Ret True s' \<and> \<not> m_running s' \<and> \<not> m_joinable s' \<and>
            m_retval s' = NULL \<and> \<not> m_request_stop s' \<and>
            m_thread_obj s' = Some h \<and> lookup (threads s') h = Some (t\<lparr>pc := Done\<rparr>)) \<and>
         (if cancel_point (work t) \<or> returns (work t) (m_request_stop s) \<noteq> None
          then \<exists>s'. kill Posix s = Ret True s' \<and> \<not> m_running s' \<and> \<not> m_joinable s' \<and>
                 m_retval s' = NULL \<and> \<not> m_request_stop s' \<and>
                 m_thread_obj s' = None \<and> lookup (threads s') h = None
          else kill Posix s = Blocks)"
    by blast
qed

theorem kill_running_witness:
  "quiescent (started ''poller'' polling_run) \<and> m_running (started ''poller'' polling_run) \<and>
   (\<exists>s'. kill Posix (started ''poller'' polling_run) = Ret True s' \<and> \<not> m_running s' \<and>
      \<not> m_joinable s' \<and> m_retval s' = NULL \<and> \<not> m_request_stop s' \<and>
      m_thread_obj s' = None \<and> lookup (threads s') 0 = None) \<and>
   (\<exists>s'. kill Win32 (started ''poller'' polling_run) = Ret True s' \<and> \<not> m_running s' \<and>
      \<not> m_joinable s' \<and> m_retval s' = NULL \<and> \<not> m_request_stop s' \<and>
      m_thread_obj s' = Some 0 \<and>
      lookup (threads s') 0 = Some \<lparr>pc = Done, work = polling_run, cancel = False\<rparr>)"
proof -
  have r: "m_running (started ''poller'' polling_run)" by (simp add: started_def)
  note k = kill_running [of "started ''poller'' polling_run" Posix, THEN conjunct2, rule_format]
  from k [OF conjI [OF quiescent_started r]] obtain h t
    where ht: "m_thread_obj (started ''poller'' polling_run) = Some h"
      "lookup (threads (started ''poller'' polling_run)) h = Some t"
    and w: "\<exists>s'. kill Win32 (started ''poller'' polling_run) = Ret True s' \<and> \<not> m_running s' \<and>
      \<not> m_joinable s' \<and> m_retval s' = NULL \<and> \<not> m_request_stop s' \<and>
      m_thread_obj s' = Some h \<and> lookup (threads s') h = Some (t\<lparr>pc := Done\<rparr>)"
    and p: "if cancel_point (work t) \<or>
         returns (work t) (m_request_stop (started ''poller'' polling_run)) \<noteq> None
       then \<exists>s'. kill Posix (started ''poller'' polling_run) = Ret True s' \<and> \<not> m_running s' \<and>
              \<not> m_joinable s' \<and> m_retval s' = NULL \<and> \<not> m_request_stop s' \<and>
              m_thread_obj s' = None \<and> lookup (threads s') h = None
       else kill Posix (started ''poller'' polling_run) = Blocks"
    by auto
  from ht have h0: "h = 0" and t0: "t = \<lparr>pc = AtLock, work = polling_run, cancel = False\<rparr>"
    by (simp_all add: started_def lookup_def)
  have cp: "cancel_point (work t)" by (simp add: t0 polling_run_def)
  have td: "t\<lparr>pc := Done\<rparr> = \<lparr>pc = Done, work = polling_run, cancel = False\<rparr>"
    by (simp add: t0)
  from p cp have p': "\<exists>s'. kill Posix (started ''poller'' polling_run) = Ret True s' \<and> \<not> m_running s' \<and>
              \<not> m_joinable s' \<and> m_retval s' = NULL \<and> \<not> m_request_stop s' \<and>
              m_thread_obj s' = None \<and> lookup (threads s') h = None"
    by simp
  from quiescent_started r p' w show ?thesis unfolding h0 td by (intro conjI)
qed

text \<open>
  C2 as stated fails. On Windows \<open>kill()\<close> of a running instance returns true while the
  handle still points to the thread object, which has been neither joined nor deleted.
  On the POSIX path \<open>kill()\<close> of an instance whose work function runs for ever without
  a cancellation point never returns.
\<close>

theorem kill_running_not_joined:
  "m_running (started ''worker'' sentinel_run) \<and>
   kill Win32 (started ''worker'' sentinel_run) =
     Ret True
       \<lparr>m_name = ''worker'', m_retval = NULL, m_joinable = False, m_request_stop = False,
        m_running = False, m_mutex = False, m_start_finished_mutex = False,
        m_thread_obj = Some 0,
        threads = [Some \<lparr>pc = Done, work = sentinel_run, cancel = False\<rparr>]\<rparr> \<and>
   m_running (started ''spinner'' spinning_run) \<and>
   kill Posix (started ''spinner'' spinning_run) = Blocks"
proof -
  have a: "kill Win32 (started ''worker'' sentinel_run) =
     Ret True
       \<lparr>m_name = ''worker'', m_retval = NULL, m_joinable = False, m_request_stop = False,
        m_running = False, m_mutex = False, m_start_finished_mutex = False,
        m_thread_obj = Some 0,
        threads = [Some \<lparr>pc = Done, work = sentinel_run, cancel = False\<rparr>]\<rparr>"
    by (simp add: kill_def Let_def getThreadHandle_def TerminateThread_def set_thread_def
        lookup_def started_def)
  have lk: "lookup (threads (started ''spinner'' spinning_run)) 0 =
      Some \<lparr>pc = AtLock, work = spinning_run, cancel = False\<rparr>"
    by (simp add: started_def lookup_def)
  have b: "kill Posix (started ''spinner'' spinning_run) = Blocks"
    using kill_Posix_running [OF _ _ _ _ lk _ _ _ refl]
    by (simp add: started_def spinning_run_def)
  from a b show ?thesis by (simp add: started_def)
qed

text \<open>
  C5. While \<open>running\<close> is true, \<open>getReturnValue\<close> returns false and leaves the output
  slot as it was. While \<open>running\<close> is false it writes \<open>m_retval\<close> to the slot and
  returns true; and when a run has completed with the value \<open>v\<close> and no other run has
  completed and no running instance has been killed since, the value written is \<open>v\<close>.
\<close>

theorem getReturnValue_contract:
  "(m_running s \<longrightarrow> getReturnValue s slot = (False, slot)) \<and>
   (\<not> m_running s \<longrightarrow> getReturnValue s slot = (True, m_retval s)) \<and>
   (last_run plat s v \<and> \<not> m_running s \<longrightarrow> getReturnValue s slot = (True, v))"
  using last_run_retval [of plat s v] by (auto simp: getReturnValue_def)


theorem getReturnValue_contract_witness:
  "m_running (started ''worker'' sentinel_run) \<and>
   getReturnValue (started ''worker'' sentinel_run) (Addr 7) = (False, Addr 7) \<and>
   wait (started ''worker'' sentinel_run) = Ret True (reaped ''worker'' (Addr 42)) \<and>
   last_run Posix (reaped ''worker'' (Addr 42)) (Addr 42) \<and>
   \<not> m_running (reaped ''worker'' (Addr 42)) \<and>
   getReturnValue (reaped ''worker'' (Addr 42)) (Addr 7) = (True, Addr 42)"
proof -
  have r: "m_running (started ''worker'' sentinel_run)" by (simp add: started_def)
  have cur: "m_thread_obj (started ''worker'' sentinel_run) = Some 0"
    by (simp add: started_def)
  have lk: "lookup (threads (started ''worker'' sentinel_run)) 0 =
      Some \<lparr>pc = AtLock, work = sentinel_run, cancel = False\<rparr>"
    by (simp add: started_def lookup_def)
  have v: "returns (work \<lparr>pc = AtLock, work = sentinel_run, cancel = False\<rparr>)
      (m_request_stop (started ''worker'' sentinel_run)) = Some (Addr 42)"
    by (simp add: sentinel_run_def)
  have w: "wait (started ''worker'' sentinel_run) = Ret True (reaped ''worker'' (Addr 42))"
    using wait_past_entry [OF _ _ cur lk _ _ _ _ refl]
    by (simp add: started_def reaped_def sentinel_run_def)
  have l: "last_run Posix (reaped ''worker'' (Addr 42)) (Addr 42)"
    by (rule run_returns_in_wait [OF quiescent_started r cur lk v w])
  have n: "\<not> m_running (reaped ''worker'' (Addr 42))" by (simp add: reaped_def)
  from getReturnValue_contract [of "started ''worker'' sentinel_run" "Addr 7"] r
  have a: "getReturnValue (started ''worker'' sentinel_run) (Addr 7) = (False, Addr 7)"
    by simp
  note g = getReturnValue_contract [of "reaped ''worker'' (Addr 42)" "Addr 7" Posix "Addr 42",
      THEN conjunct2, THEN conjunct2, rule_format]
  have b: "getReturnValue (reaped ''worker'' (Addr 42)) (Addr 7) = (True, Addr 42)"
    by (rule g [OF conjI [OF l n]])
  from r a w l n b show ?thesis by simp
qed

text \<open>
  C9. \<open>stop()\<close> returns true in every state, a never-started instance included, and it
  cannot block: it is a single assignment. Its only effect is to set the stop flag;
  \<open>running\<close>, \<open>joinable\<close>, \<open>returnValue\<close>, the native handle and the threads are
  unchanged. The wrapper itself never acts on the flag: \<open>start()\<close> and
  \<open>getReturnValue\<close> do the same whatever the flag says, and so do \<open>wait()\<close> and
  \<open>kill()\<close> unless a work function reads the flag (up to the flag the call leaves).
\<close>

theorem stop_contract:
  "stop s = (True, s\<lparr>m_request_stop := True\<rparr>) \<and>
   m_running (snd (stop s)) = m_running s \<and> m_joinable (snd (stop s)) = m_joinable s \<and>
   m_retval (snd (stop s)) = m_retval s \<and> m_thread_obj (snd (stop s)) = m_thread_obj s \<and>
   threads (snd (stop s)) = threads s \<and>
   forget_stop (start spawn sched (s\<lparr>m_request_stop := b\<rparr>)) = forget_stop (start spawn sched s) \<and>
   getReturnValue (s\<lparr>m_request_stop := b\<rparr>) slot = getReturnValue s slot \<and>
   (all_ignore_stop s \<longrightarrow>
      forget_stop (wait (s\<lparr>m_request_stop := b\<rparr>)) = forget_stop (wait s) \<and>
      forget_stop (kill plat (s\<lparr>m_request_stop := b\<rparr>)) = forget_stop (kill plat s))"
proof -
  have "forget_stop (wait (s\<lparr>m_request_stop := b\<rparr>)) = forget_stop (wait s)"
    if "all_ignore_stop s"
    by (simp add: wait_stop_flag [OF that] split: outcome.splits)
  then show ?thesis
    by (simp add: stop_def start_stop_flag kill_stop_flag getReturnValue_def)
qed

theorem stop_contract_witness:
  "stop (Thread ''worker'' None) = (True, (Thread ''worker'' None)\<lparr>m_request_stop := True\<rparr>) \<and>
   all_ignore_stop (started ''worker'' sentinel_run) \<and>
   forget_stop (wait (snd (stop (started ''worker'' sentinel_run)))) =
     forget_stop (wait (started ''worker'' sentinel_run)) \<and>
   forget_stop (kill Posix (snd (stop (started ''worker'' sentinel_run)))) =
     forget_stop (kill Posix (started ''worker'' sentinel_run))"
proof -
  have a: "all_ignore_stop (started ''worker'' sentinel_run)"
    by (simp add: all_ignore_stop_def started_def ignores_stop_def sentinel_run_def)
  have e: "snd (stop (started ''worker'' sentinel_run)) =
      (started ''worker'' sentinel_run)\<lparr>m_request_stop := True\<rparr>"
    by (simp add: stop_def)
  from stop_contract [of "Thread ''worker'' None"]
  have b: "stop (Thread ''worker'' None) = (True, (Thread ''worker'' None)\<lparr>m_request_stop := True\<rparr>)"
    by simp
  from stop_contract [of "started ''worker'' sentinel_run" _ _ True _ Posix] a
  have c: "forget_stop (wait ((started ''worker'' sentinel_run)\<lparr>m_request_stop := True\<rparr>)) =
     forget_stop (wait (started ''worker'' sentinel_run))"
    "forget_stop (kill Posix ((started ''worker'' sentinel_run)\<lparr>m_request_stop := True\<rparr>)) =
     forget_stop (kill Posix (started ''worker'' sentinel_run))"
    by simp_all
  from a b c show ?thesis unfolding e by simp
qed

end
